theory Spec2Isabelle
  imports Main "HOL-Library.Word"
begin

unbundle bit_operations_syntax

section \<open>Python values and exceptions\<close>

text \<open>
  Python \<open>str\<close> is modelled as \<open>string\<close> (one \<open>char\<close> per character, code points
  below 256; \<open>lower\<close> changes the ASCII letters only), Python \<open>int\<close> as \<open>int\<close>, a raised
  exception as \<open>Inl\<close> of a sum.
\<close>

datatype py_exn = ValueError string | TypeError | IndexError | KeyError | OtherError string

type_synonym 'a result = "py_exn + 'a"

definition is_hex :: "char \<Rightarrow> bool" where
  \<comment> \<open>the character class \<open>[0-9a-fA-F]\<close>\<close>
  "is_hex c \<longleftrightarrow> c \<in> set ''0123456789abcdefABCDEF''"

definition hex_val :: "char \<Rightarrow> nat" where
  \<comment> \<open>the value of a hex digit (0 for any other character, which no caller passes)\<close>
  "hex_val c =
     (case map_of (zip ''0123456789abcdefABCDEF''
                       [0, 1, 2, 3, 4, 5, 6, 7, 8, 9, 10, 11, 12, 13, 14, 15, 10, 11, 12, 13, 14, 15]) c of
        Some d \<Rightarrow> d
      | None \<Rightarrow> 0)"

definition hex_char :: "nat \<Rightarrow> char" where
  "hex_char d = ''0123456789abcdef'' ! d"

definition lower_char :: "char \<Rightarrow> char" where
  "lower_char c =
     (case map_of (zip ''ABCDEFGHIJKLMNOPQRSTUVWXYZ'' ''abcdefghijklmnopqrstuvwxyz'') c of
        Some l \<Rightarrow> l
      | None \<Rightarrow> c)"

definition lower :: "string \<Rightarrow> string" where
  \<comment> \<open>\<open>str.lower()\<close>\<close>
  "lower s = map lower_char s"

definition lstrip :: "char \<Rightarrow> string \<Rightarrow> string" where
  \<comment> \<open>\<open>s.lstrip(c)\<close> for a one-character argument\<close>
  "lstrip c s = dropWhile (\<lambda>x. x = c) s"

definition slice :: "nat \<Rightarrow> nat \<Rightarrow> 'a list \<Rightarrow> 'a list" where
  \<comment> \<open>\<open>s[i:j]\<close> for \<open>0 \<le> i \<le> j\<close>: out-of-range bounds are clipped, never an error\<close>
  "slice i j s = take (j - i) (drop i s)"

definition int16 :: "string \<Rightarrow> int result" where
  \<comment> \<open>\<open>int(s, 16)\<close> on a string of hex digits. Python also accepts a sign, a \<open>0x\<close> prefix,
      surrounding blanks and underscores between digits; here these raise. In
      \<open>change_png_bytes_color\<close> the pattern check before the call excludes them; in
      \<open>color_code_to_rgba\<close> they need a theme colour that is not \<open>#RRGGBB\<close> or
      \<open>#RRGGBBAA\<close>.\<close>
  "int16 s =
     (if s \<noteq> [] \<and> list_all is_hex s
      then Inr (foldl (\<lambda>acc c. 16 * acc + int (hex_val c)) 0 s)
      else Inl (ValueError (''invalid literal for int() with base 16: '' @ s)))"

fun hex_digits :: "nat \<Rightarrow> string" where
  "hex_digits n = (if n < 16 then [hex_char n] else hex_digits (n div 16) @ [hex_char (n mod 16)])"

declare hex_digits.simps [simp del]

definition zfill :: "nat \<Rightarrow> string \<Rightarrow> string" where
  "zfill w s = replicate (w - length s) (CHR ''0'') @ s"

definition format_08x :: "int \<Rightarrow> string" where
  \<comment> \<open>the format spec \<open>:08x\<close>: lowercase hex, zero-padded to width 8, sign first\<close>
  "format_08x i =
     (if i < 0 then CHR ''-'' # zfill 7 (hex_digits (nat (- i))) else zfill 8 (hex_digits (nat i)))"

definition match_hex_plus_end :: "string \<Rightarrow> bool" where
  \<comment> \<open>\<open>re.match(r"[0-9a-fA-F]+$", s)\<close>: \<open>$\<close> also matches before one final newline\<close>
  "match_hex_plus_end s \<longleftrightarrow>
     takeWhile is_hex s \<noteq> [] \<and> dropWhile is_hex s \<in> {[], [CHR 0x0A]}"

definition match_rgba_code :: "string \<Rightarrow> bool" where
  \<comment> \<open>\<open>re.match(r"#[0-9a-fA-F]{8}$", s)\<close>\<close>
  "match_rgba_code s \<longleftrightarrow>
     (case s of
        [] \<Rightarrow> False
      | c # r \<Rightarrow> c = CHR ''#'' \<and> length (take 8 r) = 8 \<and> list_all is_hex (take 8 r)
                 \<and> drop 8 r \<in> {[], [CHR 0x0A]})"

section \<open>Colour codes (plugin/ui/image.py)\<close>

definition add_alpha_to_rgb :: "string \<Rightarrow> string result" where
  "add_alpha_to_rgb color_code =
     (let rgb = take 8 (lstrip (CHR ''#'') color_code)
      in if rgb = [] then Inr ''''
         else if length rgb = 8 then Inr (lower (CHR ''#'' # rgb))
         else let rgb = (if length rgb = 3
                         then [rgb ! 0, rgb ! 0, rgb ! 1, rgb ! 1, rgb ! 2, rgb ! 2]
                         else rgb)
              in if length rgb = 6 then Inr (lower (CHR ''#'' # take 6 rgb @ ''ff''))
                 else Inl (ValueError (''Invalid RGB/RGBA color code: '' @ color_code)))"

definition color_code_to_rgba_body :: "string option \<Rightarrow> string \<Rightarrow> string result" where
  \<comment> \<open>The undecorated function. The region is used only for the theme lookup, whose outcome
      is the first argument: \<open>None\<close> when the window has no active view, else the
      \<open>foreground\<close> of the style of the scope at \<open>region.end() - 1\<close> (\<open>''''\<close> when the style
      has none).\<close>
  "color_code_to_rgba_body foreground color_code =
     (if color_code = [] then Inr ''''
      else if hd color_code \<noteq> CHR ''#'' then
        (case foreground of
           None \<Rightarrow> Inr ''''
         | Some color \<Rightarrow>
             if color_code = ''@scope'' then Inr color
             else if color_code = ''@scope_inverted'' then
               (case int16 (slice 1 9 (color @ ''ff'')) of
                  Inl e \<Rightarrow> Inl e
                | Inr rgba_int \<Rightarrow>
                    Inr (CHR ''#'' # format_08x ((NOT rgba_int AND 0xFFFFFF00) OR (rgba_int AND 0xFF))))
             else Inr '''')
      else let rgb = slice 1 9 color_code
           in if length rgb \<in> {3, 6, 8} \<and> match_hex_plus_end rgb then Inr (CHR ''#'' # rgb)
              else Inr '''')"

definition simple_decorator :: "('b \<Rightarrow> 'c result) \<Rightarrow> ('a \<Rightarrow> 'b result) \<Rightarrow> 'a \<Rightarrow> 'c result" where
  \<comment> \<open>Modelled from the spec: \<open>simple_decorator\<close> of plugin/utils.py, which is not among the
      sources. Normalisation has to produce the 8-digit form from what the decorated
      function returns, so the decorator passes the decorated function's return value
      through its argument; an exception of either propagates.\<close>
  "simple_decorator decorator decoratee x =
     (case decoratee x of Inl e \<Rightarrow> Inl e | Inr y \<Rightarrow> decorator y)"

definition color_code_to_rgba :: "string option \<Rightarrow> string \<Rightarrow> string result" where
  "color_code_to_rgba foreground =
     simple_decorator add_alpha_to_rgb (color_code_to_rgba_body foreground)"

subsection \<open>The canonical form in the specification's words\<close>

definition canonical_of :: "string \<Rightarrow> string" where
  \<comment> \<open>the specification's normal form of the digits after \<open>#\<close>: three digits are doubled
      and get \<open>ff\<close>, six digits get \<open>ff\<close>, eight digits pass through; all in lowercase\<close>
  "canonical_of ds =
     (if length ds = 3 then CHR ''#'' # lower (concat (map (\<lambda>c. [c, c]) ds)) @ ''ff''
      else if length ds = 6 then CHR ''#'' # lower ds @ ''ff''
      else CHR ''#'' # lower ds)"

definition is_canonical :: "string \<Rightarrow> bool" where
  \<comment> \<open>\<open>#\<close> followed by exactly eight lowercase hex digits\<close>
  "is_canonical s \<longleftrightarrow>
     (case s of
        [] \<Rightarrow> False
      | c # r \<Rightarrow> c = CHR ''#'' \<and> length r = 8 \<and> list_all (\<lambda>x. x \<in> set ''0123456789abcdef'') r)"

definition hex2 :: "int \<Rightarrow> string" where
  \<comment> \<open>the two lowercase hex digits of a byte\<close>
  "hex2 b = [hex_char (nat (b div 16)), hex_char (nat (b mod 16))]"

definition complement8 :: "int \<Rightarrow> int" where
  \<comment> \<open>the bitwise complement of a byte\<close>
  "complement8 b = NOT b AND 0xFF"

definition byte_at :: "string \<Rightarrow> nat \<Rightarrow> int" where
  \<comment> \<open>the \<open>i\<close>-th byte written by a string of hex digits\<close>
  "byte_at ds i = 16 * int (hex_val (ds ! (2 * i))) + int (hex_val (ds ! (2 * i + 1)))"

section \<open>Recolouring a PNG (plugin/ui/image.py)\<close>

type_synonym bytes = "8 word list"

text \<open>
  The PNG library (plugin/libs/png, a vendored copy of pypng, not among the sources) is a
  parameter: \<open>asRGBA\<close> is the outcome of \<open>png.Reader(bytes=b).asRGBA()\<close> read to the end
  (width, height and the rows, each a flat sequence of R, G, B, A values), \<open>write_array\<close>
  that of \<open>png.from_array(rows, "RGBA").write(buf)\<close> followed by \<open>buf.getvalue()\<close>.
\<close>

record png =
  asRGBA :: "bytes \<Rightarrow> (int \<times> int \<times> int list list) result"
  write_array :: "int list list \<Rightarrow> bytes result"

definition rbind :: "'a result \<Rightarrow> ('a \<Rightarrow> 'b result) \<Rightarrow> 'b result" where
  \<comment> \<open>sequencing: an exception of the first computation skips the second\<close>
  "rbind r f = (case r of Inl e \<Rightarrow> Inl e | Inr v \<Rightarrow> f v)"

fun collect :: "'a result list \<Rightarrow> 'a list result" where
  \<comment> \<open>a comprehension or loop over fallible steps: the first exception, in order, ends it\<close>
  "collect [] = Inr []"
| "collect (x # xs) = rbind x (\<lambda>v. rbind (collect xs) (\<lambda>vs. Inr (v # vs)))"

fun grouper4 :: "'a list \<Rightarrow> 'a option list list" where
  \<comment> \<open>\<open>more_itertools.grouper(row, 4)\<close>: groups of four, a short last group filled with
      \<open>None\<close>\<close>
  "grouper4 (a # b # c # d # r) = [Some a, Some b, Some c, Some d] # grouper4 r"
| "grouper4 [] = []"
| "grouper4 xs = [map Some xs @ replicate (4 - length xs) None]"

fun calculate_gray :: "int option list \<Rightarrow> int result" where
  \<comment> \<open>\<open>(rgb[0] * 38 + rgb[1] * 75 + rgb[2] * 15) >> 7\<close>; an item \<open>None\<close> is a TypeError, a
      missing one an IndexError, in the order Python evaluates the sum\<close>
  "calculate_gray (Some r # Some g # Some b # _) = Inr (drop_bit 7 (r * 38 + g * 75 + b * 15))"
| "calculate_gray [] = Inl IndexError"
| "calculate_gray (None # _) = Inl TypeError"
| "calculate_gray [Some r] = Inl IndexError"
| "calculate_gray (Some r # None # _) = Inl TypeError"
| "calculate_gray [Some r, Some g] = Inl IndexError"
| "calculate_gray (Some r # Some g # None # _) = Inl TypeError"

definition item :: "'a list \<Rightarrow> nat \<Rightarrow> 'a result" where
  \<comment> \<open>\<open>xs[i]\<close> for \<open>i \<ge> 0\<close>\<close>
  "item xs i = (if i < length xs then Inr (xs ! i) else Inl IndexError)"

definition number :: "int option \<Rightarrow> int result" where
  \<comment> \<open>an operand of \<open>*\<close>: \<open>None\<close> is a TypeError\<close>
  "number x = (case x of None \<Rightarrow> Inl TypeError | Some v \<Rightarrow> Inr v)"

definition render_pixel :: "int option list \<Rightarrow> int list \<Rightarrow> bool \<Rightarrow> int list result" where
  \<comment> \<open>the nested function of \<open>change_png_bytes_color\<close>; the returned tuple as a list\<close>
  "render_pixel rgba_src rgba_dst invert_gray =
     rbind (calculate_gray rgba_src) (\<lambda>g.
       let gray = (if invert_gray then 0xFF - g else g)
       in rbind (item rgba_dst 0) (\<lambda>d0.
          rbind (item rgba_dst 1) (\<lambda>d1.
          rbind (item rgba_dst 2) (\<lambda>d2.
          rbind (item rgba_dst 3) (\<lambda>d3.
          rbind (rbind (item rgba_src 3) number) (\<lambda>s3.
            Inr [drop_bit 8 (d0 * gray), drop_bit 8 (d1 * gray), drop_bit 8 (d2 * gray),
                 drop_bit 8 (d3 * s3)]))))))"

definition is_img_light :: "png \<Rightarrow> bytes \<Rightarrow> bool result" where
  "is_img_light lib img_bytes =
     rbind (asRGBA lib img_bytes) (\<lambda>(w, h, rows).
       rbind (collect (map calculate_gray (concat (map grouper4 rows)))) (\<lambda>grays.
         Inr (drop_bit 7 (sum_list grays) > w * h)))"

definition change_png_bytes_color :: "png \<Rightarrow> bytes \<Rightarrow> string \<Rightarrow> bytes result" where
  \<comment> \<open>the function under \<open>@lru_cache\<close>; the cache is modelled in the next section\<close>
  "change_png_bytes_color lib img_bytes rgba_code =
     (if rgba_code = [] then Inr img_bytes
      else if \<not> match_rgba_code rgba_code
      then Inl (ValueError (''Invalid RGBA color code: '' @ rgba_code))
      else
        rbind (is_img_light lib img_bytes) (\<lambda>light.
          let invert_gray = \<not> light
          in rbind (collect (map (\<lambda>i. int16 (slice i (i + 2) rgba_code)) [1, 3, 5, 7])) (\<lambda>rgba_dst.
             rbind (asRGBA lib img_bytes) (\<lambda>(w, h, rows).
               rbind (collect (map (\<lambda>row_src.
                        rbind (collect (map (\<lambda>rgba_src. render_pixel rgba_src rgba_dst invert_gray)
                                 (grouper4 row_src)))
                          (\<lambda>pixels. Inr (concat pixels))) rows))
                 (write_array lib)))))"

subsection \<open>The transform in the specification's words\<close>

fun pixels :: "int list \<Rightarrow> (int \<times> int \<times> int \<times> int) list" where
  \<comment> \<open>the pixels (R, G, B, A) of a row\<close>
  "pixels (r # g # b # a # rest) = (r, g, b, a) # pixels rest"
| "pixels _ = []"

definition gray :: "int \<times> int \<times> int \<times> int \<Rightarrow> int" where
  \<comment> \<open>\<open>g = (R*38 + G*75 + B*15) >> 7\<close>\<close>
  "gray p = (case p of (R, G, B, A) \<Rightarrow> (R * 38 + G * 75 + B * 15) div 2 ^ 7)"

definition classified_light :: "int \<Rightarrow> int \<Rightarrow> int list list \<Rightarrow> bool" where
  \<comment> \<open>light iff (sum of \<open>g\<close> over all pixels) \<open>>> 7\<close> is strictly greater than width * height\<close>
  "classified_light w h rows \<longleftrightarrow>
     sum_list (map gray (concat (map pixels rows))) div 2 ^ 7 > w * h"

definition recolored :: "int \<times> int \<times> int \<times> int \<Rightarrow> bool \<Rightarrow> int \<times> int \<times> int \<times> int \<Rightarrow> int list" where
  \<comment> \<open>the pixel that \<open>(R, G, B, A)\<close> is mapped to for the target \<open>(tR, tG, tB, tA)\<close>; \<open>g\<close> is
      replaced by \<open>255 - g\<close> when the template is dark\<close>
  "recolored t dark p =
     (case t of (tR, tG, tB, tA) \<Rightarrow>
        (case p of (R, G, B, A) \<Rightarrow>
           let g = (if dark then 255 - gray p else gray p)
           in [(tR * g) div 2 ^ 8, (tG * g) div 2 ^ 8, (tB * g) div 2 ^ 8, (tA * A) div 2 ^ 8]))"

definition target_of :: "string \<Rightarrow> int \<times> int \<times> int \<times> int" where
  \<comment> \<open>the channel bytes of the colour \<open>#rrggbbaa\<close>\<close>
  "target_of rgba_code =
     (let ds = tl rgba_code in (byte_at ds 0, byte_at ds 1, byte_at ds 2, byte_at ds 3))"

definition white_1x1 :: png where
  \<comment> \<open>a library state for examples: every template decodes to one opaque white pixel, and
      the encoder writes the channel values as bytes\<close>
  "white_1x1 =
     \<lparr>asRGBA = (\<lambda>b. Inr (1, 1, [[255, 255, 255, 255]])),
      write_array = (\<lambda>rows. Inr (map word_of_int (concat rows)))\<rparr>"

definition white_2x1 :: png where
  \<comment> \<open>as \<open>white_1x1\<close>, with a row of two opaque white pixels\<close>
  "white_2x1 =
     \<lparr>asRGBA = (\<lambda>b. Inr (2, 1, [[255, 255, 255, 255, 255, 255, 255, 255]])),
      write_array = (\<lambda>rows. Inr (map word_of_int (concat rows)))\<rparr>"

section \<open>The memoisation (functools.lru_cache in plugin/ui/image.py)\<close>

text \<open>
  \<open>get_colored_image_base64_by_color\<close> and \<open>change_png_bytes_color\<close> are decorated with
  \<open>@lru_cache\<close> without arguments, that is with \<open>maxsize=128\<close>. A cache is the list of its
  entries, the most recently used first. A hit moves the entry to the front; a miss calls
  the function and, unless it raises, puts the new entry at the front and drops the least
  recently used one when the cache is full.
\<close>

type_synonym ('k, 'v) lru = "('k \<times> 'v) list"

definition lru_maxsize :: nat where
  "lru_maxsize = 128"

definition lru_hit :: "'k \<Rightarrow> 'v \<Rightarrow> ('k, 'v) lru \<Rightarrow> ('k, 'v) lru" where
  "lru_hit k v c = (k, v) # filter (\<lambda>e. fst e \<noteq> k) c"

definition lru_miss :: "'k \<Rightarrow> 'v \<Rightarrow> ('k, 'v) lru \<Rightarrow> ('k, 'v) lru" where
  "lru_miss k v c = take lru_maxsize ((k, v) # c)"

definition lru_cache :: "('k \<Rightarrow> 'v result) \<Rightarrow> 'k \<Rightarrow> ('k, 'v) lru \<Rightarrow> 'v result \<times> ('k, 'v) lru" where
  \<comment> \<open>a call of a decorated function whose body has no effect on any cache\<close>
  "lru_cache f k c =
     (case map_of c k of
        Some v \<Rightarrow> (Inr v, lru_hit k v c)
      | None \<Rightarrow> (case f k of Inl e \<Rightarrow> (Inl e, c) | Inr v \<Rightarrow> (Inr v, lru_miss k v c)))"

type_synonym png_cache = "(bytes \<times> string, bytes) lru"

type_synonym base64_cache = "(string \<times> string, string) lru"

definition change_png_bytes_color_cached ::
  "png \<Rightarrow> bytes \<Rightarrow> string \<Rightarrow> png_cache \<Rightarrow> bytes result \<times> png_cache" where
  \<comment> \<open>\<open>change_png_bytes_color\<close> as callers see it, under its decorator\<close>
  "change_png_bytes_color_cached lib img_bytes rgba_code c =
     lru_cache (\<lambda>k. change_png_bytes_color lib (fst k) (snd k)) (img_bytes, rgba_code) c"

record images =
  image_base64 :: "string \<Rightarrow> string result" \<comment> \<open>\<open>global_get(f"images.{img_name}.base64")\<close>\<close>
  image_bytes :: "string \<Rightarrow> bytes result" \<comment> \<open>\<open>global_get(f"images.{img_name}.bytes")\<close>\<close>
  b64encode :: "bytes \<Rightarrow> string" \<comment> \<open>\<open>base64.b64encode(b).decode()\<close>\<close>

definition get_colored_image_base64_by_color ::
  "images \<Rightarrow> png \<Rightarrow> string \<Rightarrow> string \<Rightarrow> base64_cache \<times> png_cache
     \<Rightarrow> string result \<times> (base64_cache \<times> png_cache)" where
  \<comment> \<open>under its decorator; the body calls the decorated \<open>change_png_bytes_color\<close>, so both
      caches are in the state\<close>
  "get_colored_image_base64_by_color env lib img_name rgba_code st =
     (case st of (bc, pc) \<Rightarrow>
        (case map_of bc (img_name, rgba_code) of
           Some v \<Rightarrow> (Inr v, (lru_hit (img_name, rgba_code) v bc, pc))
         | None \<Rightarrow>
             if rgba_code = [] then
               (case image_base64 env img_name of
                  Inl e \<Rightarrow> (Inl e, (bc, pc))
                | Inr v \<Rightarrow> (Inr v, (lru_miss (img_name, rgba_code) v bc, pc)))
             else
               (case image_bytes env img_name of
                  Inl e \<Rightarrow> (Inl e, (bc, pc))
                | Inr img_bytes \<Rightarrow>
                    (case change_png_bytes_color_cached lib img_bytes rgba_code pc of
                       (Inl e, pc') \<Rightarrow> (Inl e, (bc, pc'))
                     | (Inr out, pc') \<Rightarrow>
                         (Inr (b64encode env out),
                          (lru_miss (img_name, rgba_code) (b64encode env out) bc, pc'))))))"

fun png_lookups :: "png \<Rightarrow> (bytes \<times> string) list \<Rightarrow> png_cache \<Rightarrow> png_cache" where
  \<comment> \<open>the cache after a sequence of calls of \<open>change_png_bytes_color\<close>\<close>
  "png_lookups lib [] c = c"
| "png_lookups lib (k # ks) c =
     png_lookups lib ks (snd (change_png_bytes_color_cached lib (fst k) (snd k) c))"

fun base64_lookups ::
  "images \<Rightarrow> png \<Rightarrow> (string \<times> string) list \<Rightarrow> base64_cache \<times> png_cache \<Rightarrow> base64_cache \<times> png_cache" where
  \<comment> \<open>the caches after a sequence of calls of \<open>get_colored_image_base64_by_color\<close>\<close>
  "base64_lookups env lib [] st = st"
| "base64_lookups env lib (k # ks) st =
     base64_lookups env lib ks (snd (get_colored_image_base64_by_color env lib (fst k) (snd k) st))"

definition retained :: "'k \<Rightarrow> 'v \<Rightarrow> 'k set \<Rightarrow> ('k, 'v) lru \<Rightarrow> bool" where
  \<comment> \<open>the entry of \<open>k\<close> is in the cache, and only keys of \<open>T\<close> have been used more recently\<close>
  "retained k v T c \<longleftrightarrow>
     distinct (map fst c) \<and> map_of c k = Some v \<and> set (takeWhile (\<lambda>x. x \<noteq> k) (map fst c)) \<subseteq> T"

definition other_colors :: "string list" where
  \<comment> \<open>the 128 colours \<open>#00000001\<close> to \<open>#00000080\<close>\<close>
  "other_colors = map (\<lambda>n. CHR ''#'' # format_08x (int n)) [1..<129]"

definition sample_images :: images where
  \<comment> \<open>an example: every template has empty bytes, and a stand-in for the base64 encoder\<close>
  "sample_images =
     \<lparr>image_base64 = (\<lambda>name. Inr ''AAAA''), image_bytes = (\<lambda>name. Inr []),
      b64encode = (\<lambda>b. replicate (length b) CHR ''A'')\<rparr>"

section \<open>The rendering scheduler (plugin/renderer.py, plugin/ui/region_drawing.py)\<close>

text \<open>
  The host editor and the plugin modules that are not among the sources (functions,
  phantom_set, utils, logger, settings, shared) are modelled by what they answer and by the
  state they change. A view is an object of the host, named by an identifier; its record
  holds the answers of the predicates for it and its two overlay layers.
\<close>

type_synonym region = "int \<times> int"

type_synonym vid = nat

datatype region_flags = FlagsInt int | FlagsNames "string list"

record drawn =
  drawn_regions :: "region list"
  drawn_scope :: string
  drawn_icon :: string
  drawn_flags :: int

record view =
  processable :: bool \<comment> \<open>\<open>is_processable_view(view)\<close>\<close>
  dirty :: bool \<comment> \<open>\<open>view_is_dirty_val(view)\<close>\<close>
  typing :: bool \<comment> \<open>\<open>is_view_typing(view)\<close>\<close>
  transient :: bool \<comment> \<open>\<open>is_transient_view(view)\<close>\<close>
  too_large :: bool \<comment> \<open>\<open>is_view_too_large(view)\<close>\<close>
  show_open_button :: string \<comment> \<open>\<open>get_setting_show_open_button(view)\<close>\<close>
  find_all :: "region list result"
    \<comment> \<open>the outcome of \<open>view_find_all\<close> on the view's text with the configured pattern and
        selectors: the matches, or the exception the scan raises\<close>
  phantoms :: "region list" \<comment> \<open>the icon layer\<close>
  regions :: "string \<rightharpoonup> drawn" \<comment> \<open>the regions drawn in the view, by key\<close>

record settings =
  work_for_transient_view :: bool
  draw_uri_regions_enabled :: string \<comment> \<open>\<open>get_setting("draw_uri_regions.enabled")\<close>\<close>
  draw_scope :: string \<comment> \<open>\<open>get_setting("draw_uri_regions")["scope"]\<close>\<close>
  draw_icon :: string
  draw_flags :: region_flags
  sublime_attr :: "string \<rightharpoonup> int" \<comment> \<open>the integer attributes of the \<open>sublime\<close> module\<close>

datatype call =
    FindAll vid
  | UpdatePhantoms vid
  | ErasePhantoms vid
  | AddRegions vid
  | EraseRegions vid
  | Log string string

record host =
  windows :: "vid option list list"
    \<comment> \<open>for each window, for each of its groups, the group's active view if any\<close>
  store :: "vid \<Rightarrow> view"
  calls :: "call list" \<comment> \<open>the calls made that scan or draw, oldest first\<close>

record RendererThread =
  is_rendering :: bool

definition foreground_views :: "host \<Rightarrow> vid list" where
  "foreground_views h = concat (map (\<lambda>window. concat (map (\<lambda>g. case g of None \<Rightarrow> [] | Some v \<Rightarrow> [v]) window)) (windows h))"

definition on_view :: "vid \<Rightarrow> (view \<Rightarrow> view) \<Rightarrow> call list \<Rightarrow> host \<Rightarrow> host" where
  \<comment> \<open>a call that changes one view and is recorded\<close>
  "on_view v f cs h = h\<lparr>store := (store h)(v := f (store h v)), calls := calls h @ cs\<rparr>"

definition log :: "string \<Rightarrow> string \<Rightarrow> host \<Rightarrow> host" where
  "log level msg h = h\<lparr>calls := calls h @ [Log level msg]\<rparr>"

definition view_is_dirty_val_set :: "vid \<Rightarrow> bool \<Rightarrow> host \<Rightarrow> host" where
  \<comment> \<open>\<open>view_is_dirty_val(view, value)\<close>\<close>
  "view_is_dirty_val_set v b h = on_view v (\<lambda>x. x\<lparr>dirty := b\<rparr>) [] h"

definition erase_phantom_set :: "vid \<Rightarrow> host \<Rightarrow> host" where
  \<comment> \<open>Modelled from the spec: \<open>erase_phantom_set\<close> of plugin/phantom_set.py, which is not
      among the sources; it clears the view's icon layer.\<close>
  "erase_phantom_set v h = on_view v (\<lambda>x. x\<lparr>phantoms := []\<rparr>) [ErasePhantoms v] h"

definition update_phantom_set :: "vid \<Rightarrow> region list \<Rightarrow> host \<Rightarrow> host" where
  \<comment> \<open>Modelled from the spec: \<open>update_phantom_set\<close> of plugin/phantom_set.py, which is not
      among the sources; it replaces the icon layer with one icon per match.\<close>
  "update_phantom_set v uri_regions h = on_view v (\<lambda>x. x\<lparr>phantoms := uri_regions\<rparr>) [UpdatePhantoms v] h"

definition erase_uri_regions :: "vid \<Rightarrow> host \<Rightarrow> host" where
  \<comment> \<open>\<open>view.erase_regions("OUIB_uri_regions")\<close>\<close>
  "erase_uri_regions v h =
     on_view v (\<lambda>x. x\<lparr>regions := (regions x)(''OUIB_uri_regions'' := None)\<rparr>) [EraseRegions v] h"

definition parse_draw_region_flags :: "settings \<Rightarrow> region_flags \<Rightarrow> int" where
  "parse_draw_region_flags s fl =
     (case fl of
        FlagsInt n \<Rightarrow> n
      | FlagsNames names \<Rightarrow>
          foldl (\<lambda>acc x. acc XOR x)
            0 (map (\<lambda>flag. case sublime_attr s flag of None \<Rightarrow> 0 | Some n \<Rightarrow> n) names))"

definition draw_uri_regions :: "settings \<Rightarrow> vid \<Rightarrow> region list \<Rightarrow> host \<Rightarrow> host" where
  \<comment> \<open>\<open>view.add_regions("OUIB_uri_regions", ...)\<close> with the configured scope, icon and flags\<close>
  "draw_uri_regions s v uri_regions h =
     on_view v (\<lambda>x. x\<lparr>regions := (regions x)(''OUIB_uri_regions'' \<mapsto>
         \<lparr>drawn_regions = uri_regions, drawn_scope = draw_scope s, drawn_icon = draw_icon s,
          drawn_flags = parse_draw_region_flags s (draw_flags s)\<rparr>)\<rparr>) [AddRegions v] h"

definition clean_up_phantom_set :: "vid \<Rightarrow> host \<Rightarrow> host" where
  "clean_up_phantom_set v h = log ''debug_low'' ''erase phantoms'' (erase_phantom_set v h)"

definition clean_up_uri_regions :: "vid \<Rightarrow> host \<Rightarrow> host" where
  "clean_up_uri_regions v h = log ''debug_low'' ''erase URI regions'' (erase_uri_regions v h)"

definition detect_uris_globally :: "settings \<Rightarrow> vid \<Rightarrow> host \<Rightarrow> host \<times> py_exn option" where
  \<comment> \<open>the second component is the exception that leaves the method, if any\<close>
  "detect_uris_globally s v h =
     (let h0 = h\<lparr>calls := calls h @ [FindAll v]\<rparr>
      in case find_all (store h v) of
           Inl e \<Rightarrow> (h0, Some e)
         | Inr uri_regions \<Rightarrow>
             let h1 = (if show_open_button (store h v) = ''always''
                       then log ''debug_low'' ''re-render phantoms'' (update_phantom_set v uri_regions h0)
                       else clean_up_phantom_set v h0);
                 h2 = (if draw_uri_regions_enabled s = ''always''
                       then log ''debug_low'' ''draw URI regions'' (draw_uri_regions s v uri_regions h1)
                       else clean_up_uri_regions v h1)
             in (h2, None))"

definition update_view :: "settings \<Rightarrow> vid \<Rightarrow> host \<Rightarrow> host \<times> py_exn option" where
  \<comment> \<open>\<open>RendererThread._update_view\<close>\<close>
  "update_view s v h =
     (let view = store h v
      in if \<not> processable view \<or> \<not> dirty view \<or> typing view
            \<or> (transient view \<and> \<not> work_for_transient_view s)
         then (h, None)
         else if too_large view
         then (view_is_dirty_val_set v False (clean_up_uri_regions v (clean_up_phantom_set v h)), None)
         else (case detect_uris_globally s v h of
                 (h', Some e) \<Rightarrow> (h', Some e)
               | (h', None) \<Rightarrow> (view_is_dirty_val_set v False h', None)))"

fun for_views :: "(vid \<Rightarrow> host \<Rightarrow> host \<times> py_exn option) \<Rightarrow> vid list \<Rightarrow> host \<Rightarrow> host \<times> py_exn option" where
  \<comment> \<open>the \<open>for\<close> loop: an exception of the body leaves the loop at once\<close>
  "for_views body [] h = (h, None)"
| "for_views body (v # vs) h =
     (case body v h of
        (h', Some e) \<Rightarrow> (h', Some e)
      | (h', None) \<Rightarrow> for_views body vs h')"

definition update_foreground_views ::
  "settings \<Rightarrow> RendererThread \<times> host \<Rightarrow> (RendererThread \<times> host) \<times> py_exn option" where
  \<comment> \<open>\<open>RendererThread._update_foreground_views\<close>, one tick of the timer\<close>
  "update_foreground_views s st =
     (case st of (self, h) \<Rightarrow>
        if is_rendering self then ((self, h), None)
        else let self1 = self\<lparr>is_rendering := True\<rparr>
             in case for_views (update_view s) (foreground_views h) h of
                  (h', Some e) \<Rightarrow> ((self1, h'), Some e)
                | (h', None) \<Rightarrow> ((self1\<lparr>is_rendering := False\<rparr>, h'), None))"

subsection \<open>Notions used by the claims on the scheduler\<close>

definition eligible :: "settings \<Rightarrow> view \<Rightarrow> bool" where
  \<comment> \<open>the view passes the gates: processable, dirty, not being typed in, transient policy\<close>
  "eligible s x \<longleftrightarrow>
     processable x \<and> dirty x \<and> \<not> typing x \<and> (\<not> transient x \<or> work_for_transient_view s)"

definition about_view :: "vid \<Rightarrow> call \<Rightarrow> bool" where
  \<comment> \<open>the call scans or draws in the given view\<close>
  "about_view v c \<longleftrightarrow> c \<in> {FindAll v, UpdatePhantoms v, ErasePhantoms v, AddRegions v, EraseRegions v}"

definition cleaned :: "view \<Rightarrow> bool" where
  \<comment> \<open>both overlay layers are empty and the view is not dirty\<close>
  "cleaned x \<longleftrightarrow> phantoms x = [] \<and> regions x ''OUIB_uri_regions'' = None \<and> \<not> dirty x"

definition new_calls :: "host \<Rightarrow> host \<Rightarrow> call list" where
  \<comment> \<open>the calls recorded in the second state since the first\<close>
  "new_calls h h' = drop (length (calls h)) (calls h')"

fun ticks :: "settings \<Rightarrow> nat \<Rightarrow> RendererThread \<times> host \<Rightarrow> RendererThread \<times> host" where
  \<comment> \<open>the state after \<open>n\<close> further ticks, whatever each of them raises\<close>
  "ticks s 0 st = st"
| "ticks s (Suc n) st = ticks s n (fst (update_foreground_views s st))"

definition sample_view :: view where
  \<comment> \<open>an example: an eligible view of moderate size whose scan finds one match\<close>
  "sample_view =
     \<lparr>processable = True, dirty = True, typing = False, transient = False, too_large = False,
      show_open_button = ''always'', find_all = Inr [(0, 18)], phantoms = [], regions = Map.empty\<rparr>"

definition sample_settings :: settings where
  "sample_settings =
     \<lparr>work_for_transient_view = False, draw_uri_regions_enabled = ''always'', draw_scope = ''string'',
      draw_icon = ''dot'', draw_flags = FlagsInt 0, sublime_attr = Map.empty\<rparr>"

definition failing_view :: view where
  \<comment> \<open>as \<open>sample_view\<close>, but the scan raises\<close>
  "failing_view = sample_view\<lparr>find_all := Inl (OtherError ''scan failed'')\<rparr>"

definition large_view :: view where
  \<comment> \<open>an eligible view over the size threshold that still shows overlays\<close>
  "large_view =
     sample_view\<lparr>too_large := True, phantoms := [(0, 18)],
       regions := [''OUIB_uri_regions'' \<mapsto>
         \<lparr>drawn_regions = [(0, 18)], drawn_scope = ''string'', drawn_icon = ''dot'', drawn_flags = 0\<rparr>]\<rparr>"

definition sample_store :: "vid \<Rightarrow> view" where
  \<comment> \<open>view 0 fails to scan, view 1 is too large, every other view is \<open>sample_view\<close>\<close>
  "sample_store v = (if v = 0 then failing_view else if v = 1 then large_view else sample_view)"

definition failing_host :: host where
  \<comment> \<open>one window with three groups showing the views 0, 1 and 2\<close>
  "failing_host = \<lparr>windows = [[Some 0, Some 1, Some 2]], store = sample_store, calls = []\<rparr>"

definition healthy_host :: host where
  \<comment> \<open>two windows; the views 1 and 2 are shown, one group is empty\<close>
  "healthy_host = \<lparr>windows = [[Some 2, None], [Some 1]], store = sample_store, calls = []\<rparr>"

definition idle :: RendererThread where
  \<comment> \<open>the state \<open>__init__\<close> leaves\<close>
  "idle = \<lparr>is_rendering = False\<rparr>"

section \<open>Properties of the colour codes\<close>

subsection \<open>Characters and fixed-length lists\<close>

lemma is_hex_cases:
  "is_hex c \<longleftrightarrow> c = CHR ''0'' \<or> c = CHR ''1'' \<or> c = CHR ''2'' \<or> c = CHR ''3'' \<or> c = CHR ''4''
     \<or> c = CHR ''5'' \<or> c = CHR ''6'' \<or> c = CHR ''7'' \<or> c = CHR ''8'' \<or> c = CHR ''9''
     \<or> c = CHR ''a'' \<or> c = CHR ''b'' \<or> c = CHR ''c'' \<or> c = CHR ''d'' \<or> c = CHR ''e'' \<or> c = CHR ''f''
     \<or> c = CHR ''A'' \<or> c = CHR ''B'' \<or> c = CHR ''C'' \<or> c = CHR ''D'' \<or> c = CHR ''E'' \<or> c = CHR ''F''"
  by (simp add: is_hex_def)

lemma lower_hex: "is_hex c \<Longrightarrow> lower_char c \<in> set ''0123456789abcdef''"
  unfolding is_hex_cases by (elim disjE; simp add: lower_char_def)

lemma lower_char_consts [simp]: "lower_char CHR ''#'' = CHR ''#''" "lower_char CHR ''f'' = CHR ''f''"
  by (simp_all add: lower_char_def)

lemma hex_not_hash: "is_hex c \<Longrightarrow> c \<noteq> CHR ''#''"
  unfolding is_hex_cases by (elim disjE; simp)

lemma match_all_hex: "list_all is_hex s \<Longrightarrow> s \<noteq> [] \<Longrightarrow> match_hex_plus_end s"
  unfolding match_hex_plus_end_def
  by (cases s) (auto simp: list_all_iff takeWhile_eq_all_conv[THEN iffD2] dropWhile_eq_Nil_conv[THEN iffD2])

lemma lstrip_hash_hex: "is_hex c \<Longrightarrow> lstrip (CHR ''#'') (CHR ''#'' # c # r) = c # r"
  by (simp add: lstrip_def hex_not_hash)

lemma len3: "length xs = 3 \<Longrightarrow> \<exists>a b c. xs = [a, b, c]"
  by (auto simp: numeral_3_eq_3 length_Suc_conv)

lemma len6: "length xs = 6 \<Longrightarrow> \<exists>a b c d e f. xs = [a, b, c, d, e, f]"
proof -
  assume "length xs = 6"
  then have "length xs = Suc (Suc (Suc (Suc (Suc (Suc 0)))))" by simp
  then show ?thesis by (auto simp: length_Suc_conv)
qed

lemma len8: "length xs = 8 \<Longrightarrow> \<exists>a b c d e f g h. xs = [a, b, c, d, e, f, g, h]"
proof -
  assume "length xs = 8"
  then have "length xs = Suc (Suc (Suc (Suc (Suc (Suc (Suc (Suc 0)))))))" by simp
  then show ?thesis by (auto simp: length_Suc_conv)
qed

lemma body_valid:
  assumes "list_all is_hex ds" "length ds \<in> {3, 6, 8}"
  shows "color_code_to_rgba_body fg (CHR ''#'' # ds) = Inr (CHR ''#'' # ds)"
proof -
  have "ds \<noteq> []" using assms(2) by auto
  moreover have "length ds \<le> 8" using assms(2) by auto
  ultimately show ?thesis
    using assms match_all_hex[of ds]
    by (simp add: color_code_to_rgba_body_def slice_def)
qed

lemma add_alpha_valid:
  assumes "list_all is_hex ds" "length ds \<in> {3, 6, 8}"
  shows "add_alpha_to_rgb (CHR ''#'' # ds) = Inr (canonical_of ds)"
proof -
  consider "length ds = 3" | "length ds = 6" | "length ds = 8" using assms(2) by auto
  then show ?thesis
  proof cases
    case 1
    then obtain a b c where "ds = [a, b, c]" using len3 by blast
    then show ?thesis using assms(1)
      by (simp add: add_alpha_to_rgb_def lstrip_hash_hex canonical_of_def lower_def)
  next
    case 2
    then obtain a b c d e f where "ds = [a, b, c, d, e, f]" using len6 by blast
    then show ?thesis using assms(1)
      by (simp add: add_alpha_to_rgb_def lstrip_hash_hex canonical_of_def lower_def)
  next
    case 3
    then obtain a b c d e f g h where "ds = [a, b, c, d, e, f, g, h]" using len8 by blast
    then show ?thesis using assms(1)
      by (simp add: add_alpha_to_rgb_def lstrip_hash_hex canonical_of_def lower_def)
  qed
qed

lemma canonical_of_is_canonical:
  assumes "list_all is_hex ds" "length ds \<in> {3, 6, 8}"
  shows "is_canonical (canonical_of ds)"
proof -
  have "list_all (\<lambda>x. x \<in> set ''0123456789abcdef'') (lower ds)"
    using assms(1) lower_hex by (simp add: lower_def list_all_iff del: set_simps)
  consider "length ds = 3" | "length ds = 6" | "length ds = 8" using assms(2) by auto
  then show ?thesis
  proof cases
    case 1
    then obtain a b c where "ds = [a, b, c]" using len3 by blast
    then show ?thesis using assms(1) lower_hex
      by (simp add: canonical_of_def is_canonical_def lower_def del: set_simps) simp
  next
    case 2
    then show ?thesis using assms(1) lower_hex
      by (simp add: canonical_of_def is_canonical_def lower_def list_all_iff del: set_simps) simp
  next
    case 3
    then show ?thesis using assms(1) lower_hex
      by (simp add: canonical_of_def is_canonical_def lower_def list_all_iff del: set_simps)
  qed
qed

lemma match_hd_hex: "match_hex_plus_end s \<Longrightarrow> \<exists>c r. s = c # r \<and> is_hex c"
  unfolding match_hex_plus_end_def by (cases s) (auto split: if_splits)

lemma add_alpha_total:
  assumes "length ds \<in> {3, 6, 8}" "ds = c # r" "is_hex c"
  shows "\<not> isl (add_alpha_to_rgb (CHR ''#'' # ds))"
proof -
  have ls: "lstrip (CHR ''#'') (CHR ''#'' # ds) = ds"
    using assms(2,3) by (simp add: lstrip_hash_hex)
  consider "length ds = 3" | "length ds = 6" | "length ds = 8" using assms(1) by auto
  then show ?thesis
  proof cases
    case 1
    then show ?thesis by (simp add: add_alpha_to_rgb_def ls Let_def)
  next
    case 2
    then show ?thesis by (simp add: add_alpha_to_rgb_def ls Let_def)
  next
    case 3
    then show ?thesis by (simp add: add_alpha_to_rgb_def ls Let_def)
  qed
qed

lemma add_alpha_empty: "add_alpha_to_rgb [] = Inr []"
  by (simp add: add_alpha_to_rgb_def lstrip_def)

lemma body_hash:
  "color_code_to_rgba_body fg (CHR ''#'' # rest) =
     (if length (take 8 rest) \<in> {3, 6, 8} \<and> match_hex_plus_end (take 8 rest)
      then Inr (CHR ''#'' # take 8 rest) else Inr [])"
  by (simp add: color_code_to_rgba_body_def slice_def)

subsection \<open>Hex parsing, formatting and the inversion\<close>

lemma hex_val_lt: "hex_val c < 16"
proof (cases "is_hex c")
  case True
  then show ?thesis unfolding is_hex_cases by (elim disjE; simp add: hex_val_def)
next
  case False
  then have "map_of (zip ''0123456789abcdefABCDEF''
       [0, 1, 2, 3, 4, 5, 6, 7, 8, 9, 10, 11, 12, 13, 14, 15, 10, 11, 12, 13, 14, 15::nat]) c = None"
    by (simp add: is_hex_cases)
  then show ?thesis by (simp add: hex_val_def)
qed

lemma inv_bits:
  "(NOT n AND 0xFFFFFF00) OR (n AND 0xFF) = push_bit 8 (take_bit 24 (NOT (drop_bit 8 n))) + take_bit 8 (n::int)"
proof -
  have c: "(0xFFFFFF00::int) = push_bit 8 (mask 24)" "(0xFF::int) = mask 8"
    by (simp_all add: push_bit_eq_mult mask_eq_exp_minus_1)
  have "(NOT n AND 0xFFFFFF00) OR (n AND 0xFF) = push_bit 8 (take_bit 24 (NOT (drop_bit 8 n))) OR take_bit 8 n"
    unfolding c by (rule bit_eqI) (auto simp: bit_simps)
  also have "\<dots> = push_bit 8 (take_bit 24 (NOT (drop_bit 8 n))) + take_bit 8 n"
    by (rule disjunctive_add [symmetric]) (auto simp: bit_simps)
  finally show ?thesis .
qed

lemma inv_arith:
  assumes "0 \<le> hi" "hi < 2 ^ 24" "0 \<le> a" "a < 256"
  shows "(NOT (256 * hi + a) AND 0xFFFFFF00) OR ((256 * hi + a) AND 0xFF) = 256 * (16777215 - hi) + (a::int)"
proof -
  have d: "drop_bit 8 (256 * hi + a) = hi" using assms by (simp add: drop_bit_eq_div)
  have t: "take_bit 8 (256 * hi + a) = a" using assms by (simp add: take_bit_eq_mod)
  have "take_bit 24 (NOT hi) = mask 24 - take_bit 24 hi"
    by (rule take_bit_not_eq_mask_diff)
  also have "\<dots> = 16777215 - hi" using assms by (simp add: take_bit_eq_mod mask_eq_exp_minus_1)
  finally show ?thesis
    by (simp add: inv_bits d t push_bit_eq_mult)
qed

lemma zfill_one: "d < 16 \<Longrightarrow> zfill (Suc 0) (hex_digits d) = [hex_char d]"
  by (simp add: zfill_def hex_digits.simps)

lemma hex_digits_nonempty: "hex_digits m \<noteq> []"
  by (subst hex_digits.simps) simp

lemma zfill_step:
  assumes "d < 16" "0 < w"
  shows "zfill (Suc w) (hex_digits (16 * m + d)) = zfill w (hex_digits m) @ [hex_char d]"
proof (cases "m = 0")
  case True
  then show ?thesis using assms
    by (cases w) (simp_all add: zfill_def hex_digits.simps hex_char_def replicate_append_same)
next
  case False
  then have "hex_digits (16 * m + d) = hex_digits m @ [hex_char d]"
    using assms(1) by (subst hex_digits.simps) simp
  moreover have "0 < length (hex_digits m)" using hex_digits_nonempty by simp
  ultimately show ?thesis by (simp add: zfill_def Suc_diff_le Suc_leI)
qed

lemma format_horner:
  assumes "d0 < 16" "d1 < 16" "d2 < 16" "d3 < 16" "d4 < 16" "d5 < 16" "d6 < 16" "d7 < 16"
  shows "zfill 8 (hex_digits (16 * (16 * (16 * (16 * (16 * (16 * (16 * d0 + d1) + d2) + d3) + d4) + d5) + d6) + d7))
         = map hex_char [d0, d1, d2, d3, d4, d5, d6, d7]"
proof -
  have e: "(8::nat) = Suc (Suc (Suc (Suc (Suc (Suc (Suc (Suc 0)))))))" by simp
  show ?thesis
    unfolding e
    by (simp only: zfill_step[OF _ zero_less_Suc] zfill_one assms list.map append.simps)
qed

lemma complement8_byte:
  assumes "x < 16" "y < 16"
  shows "hex2 (complement8 (16 * int x + int y)) = [hex_char (15 - x), hex_char (15 - y)]"
proof -
  have "complement8 (16 * int x + int y) = take_bit 8 (NOT (16 * int x + int y))"
    by (simp add: complement8_def take_bit_eq_mask mask_eq_exp_minus_1)
  also have "\<dots> = mask 8 - take_bit 8 (16 * int x + int y)"
    by (rule take_bit_not_eq_mask_diff)
  also have "\<dots> = 16 * int (15 - x) + int (15 - y)"
    using assms by (simp add: take_bit_eq_mod mask_eq_exp_minus_1)
  finally have c: "complement8 (16 * int x + int y) = 16 * int (15 - x) + int (15 - y)" .
  have "15 - y < 16" by simp
  then show ?thesis unfolding c hex2_def by simp
qed

lemma hex2_byte:
  assumes "x < 16" "y < 16"
  shows "hex2 (16 * int x + int y) = [hex_char x, hex_char y]"
  using assms unfolding hex2_def by simp

lemma lt16_cases:
  "d < 16 \<Longrightarrow> d = 0 \<or> d = 1 \<or> d = 2 \<or> d = 3 \<or> d = 4 \<or> d = 5 \<or> d = 6 \<or> d = 7 \<or> d = 8
     \<or> d = 9 \<or> d = 10 \<or> d = 11 \<or> d = 12 \<or> d = 13 \<or> d = 14 \<or> d = (15::nat)"
  by arith

lemma hex_char_hex: "d < 16 \<Longrightarrow> is_hex (hex_char d)"
  by (drule lt16_cases) (elim disjE; simp add: hex_char_def is_hex_def)

lemma hex_char_lower: "d < 16 \<Longrightarrow> lower_char (hex_char d) = hex_char d"
  by (drule lt16_cases) (elim disjE; simp add: hex_char_def lower_char_def)

lemma add_alpha_lower8:
  assumes "d0 < 16" "d1 < 16" "d2 < 16" "d3 < 16" "d4 < 16" "d5 < 16" "d6 < 16" "d7 < 16"
  shows "add_alpha_to_rgb [CHR ''#'', hex_char d0, hex_char d1, hex_char d2, hex_char d3,
            hex_char d4, hex_char d5, hex_char d6, hex_char d7]
         = Inr [CHR ''#'', hex_char d0, hex_char d1, hex_char d2, hex_char d3,
            hex_char d4, hex_char d5, hex_char d6, hex_char d7]"
  using assms
  by (simp add: add_alpha_to_rgb_def lstrip_hash_hex hex_char_hex hex_char_lower lower_def)

lemma invert_format:
  assumes "d0 < 16" "d1 < 16" "d2 < 16" "d3 < 16" "d4 < 16" "d5 < 16" "d6 < 16" "d7 < 16"
  defines "n \<equiv> 16 * (16 * (16 * (16 * (16 * (16 * (16 * int d0 + int d1) + int d2) + int d3)
                  + int d4) + int d5) + int d6) + int d7"
  shows "format_08x ((NOT n AND 0xFFFFFF00) OR (n AND 0xFF))
         = map hex_char [15 - d0, 15 - d1, 15 - d2, 15 - d3, 15 - d4, 15 - d5, d6, d7]"
proof -
  define hi where "hi = 16 * (16 * (16 * (16 * (16 * int d0 + int d1) + int d2) + int d3) + int d4) + int d5"
  define a where "a = 16 * int d6 + int d7"
  have n: "n = 256 * hi + a" by (simp add: n_def hi_def a_def)
  have b: "0 \<le> hi" "hi < 2 ^ 24" "0 \<le> a" "a < 256"
    using assms(1-8) by (simp_all add: hi_def a_def)
  have "(NOT n AND 0xFFFFFF00) OR (n AND 0xFF) = 256 * (16777215 - hi) + a"
    unfolding n by (rule inv_arith[OF b])
  also have "\<dots> = int (16 * (16 * (16 * (16 * (16 * (16 * (16 * (15 - d0) + (15 - d1)) + (15 - d2))
                  + (15 - d3)) + (15 - d4)) + (15 - d5)) + d6) + d7)"
    using assms(1-8) by (simp add: hi_def a_def of_nat_diff)
  finally have v: "(NOT n AND 0xFFFFFF00) OR (n AND 0xFF) =
      int (16 * (16 * (16 * (16 * (16 * (16 * (16 * (15 - d0) + (15 - d1)) + (15 - d2))
                  + (15 - d3)) + (15 - d4)) + (15 - d5)) + d6) + d7)" .
  have f: "\<And>k. format_08x (int k) = zfill 8 (hex_digits k)"
    by (simp add: format_08x_def)
  have c: "15 - d0 < 16" "15 - d1 < 16" "15 - d2 < 16" "15 - d3 < 16" "15 - d4 < 16" "15 - d5 < 16"
    by simp_all
  show ?thesis
    unfolding v f by (rule format_horner[OF c assms(7,8)])
qed

lemma int16_8:
  assumes "list_all is_hex [c0, c1, c2, c3, c4, c5, c6, c7]"
  shows "int16 [c0, c1, c2, c3, c4, c5, c6, c7] =
     Inr (16 * (16 * (16 * (16 * (16 * (16 * (16 * int (hex_val c0) + int (hex_val c1)) + int (hex_val c2))
           + int (hex_val c3)) + int (hex_val c4)) + int (hex_val c5)) + int (hex_val c6)) + int (hex_val c7))"
  using assms by (simp add: int16_def)

lemma hex_val_f [simp]: "hex_val CHR ''f'' = 15"
  by (simp add: hex_val_def)

lemma is_hex_f [simp]: "is_hex CHR ''f''"
  by (simp add: is_hex_def)

lemma body_inverted:
  "color_code_to_rgba_body (Some color) ''@scope_inverted'' =
     (case int16 (slice 1 9 (color @ ''ff'')) of
        Inl e \<Rightarrow> Inl e
      | Inr rgba_int \<Rightarrow>
          Inr (CHR ''#'' # format_08x ((NOT rgba_int AND 0xFFFFFF00) OR (rgba_int AND 0xFF))))"
  by (simp add: color_code_to_rgba_body_def)

lemma scope_inverted_8:
  assumes "list_all is_hex [c0, c1, c2, c3, c4, c5, c6, c7]"
    and "slice 1 9 (color @ ''ff'') = [c0, c1, c2, c3, c4, c5, c6, c7]"
  shows "color_code_to_rgba (Some color) ''@scope_inverted'' =
     Inr (CHR ''#'' # map hex_char [15 - hex_val c0, 15 - hex_val c1, 15 - hex_val c2,
          15 - hex_val c3, 15 - hex_val c4, 15 - hex_val c5, hex_val c6, hex_val c7])"
proof -
  have "color_code_to_rgba_body (Some color) ''@scope_inverted''
        = Inr (CHR ''#'' # map hex_char [15 - hex_val c0, 15 - hex_val c1, 15 - hex_val c2,
          15 - hex_val c3, 15 - hex_val c4, 15 - hex_val c5, hex_val c6, hex_val c7])"
    by (simp only: body_inverted assms(2) int16_8[OF assms(1)] sum.case
        invert_format[OF hex_val_lt hex_val_lt hex_val_lt hex_val_lt hex_val_lt hex_val_lt hex_val_lt hex_val_lt])
  then show ?thesis
    unfolding color_code_to_rgba_def simple_decorator_def
    by (simp add: add_alpha_lower8 hex_val_lt)
qed

subsection \<open>The claims on colour codes\<close>

text \<open>
  C5: an input of \<open>#\<close> followed by exactly 3, 6 or 8 hex digits is normalised to the
  lowercase eight-digit form (three digits doubled and \<open>ff\<close> appended, six digits with
  \<open>ff\<close> appended, eight digits passed through), and the empty input to the empty output.
\<close>

theorem color_code_to_rgba_canonical:
  "(list_all is_hex ds \<and> length ds \<in> {3, 6, 8} \<longrightarrow>
      color_code_to_rgba fg (CHR ''#'' # ds) = Inr (canonical_of ds) \<and> is_canonical (canonical_of ds))
   \<and> color_code_to_rgba fg [] = Inr []"
proof (intro conjI impI)
  assume h: "list_all is_hex ds \<and> length ds \<in> {3, 6, 8}"
  then show "color_code_to_rgba fg (CHR ''#'' # ds) = Inr (canonical_of ds)"
    by (simp only: color_code_to_rgba_def simple_decorator_def body_valid add_alpha_valid sum.case)
  from h show "is_canonical (canonical_of ds)"
    by (simp only: canonical_of_is_canonical)
next
  show "color_code_to_rgba fg [] = Inr []"
    by (simp add: color_code_to_rgba_def simple_decorator_def color_code_to_rgba_body_def
        add_alpha_to_rgb_def lstrip_def)
qed

theorem color_code_to_rgba_canonical_witness:
  "list_all is_hex ''abc'' \<and> length ''abc'' \<in> {3, 6, 8::nat}
   \<and> color_code_to_rgba None ''#abc'' = Inr ''#aabbccff''
   \<and> list_all is_hex ''AABBCC'' \<and> length ''AABBCC'' \<in> {3, 6, 8::nat}
   \<and> color_code_to_rgba None ''#AABBCC'' = Inr ''#aabbccff''
   \<and> list_all is_hex ''aabbccdd'' \<and> length ''aabbccdd'' \<in> {3, 6, 8::nat}
   \<and> color_code_to_rgba None ''#aabbccdd'' = Inr ''#aabbccdd''"
  using color_code_to_rgba_canonical [of "''abc''" None]
    color_code_to_rgba_canonical [of "''AABBCC''" None]
    color_code_to_rgba_canonical [of "''aabbccdd''" None]
  by (simp add: is_hex_def canonical_of_def lower_def lower_char_def)

text \<open>
  C3 (as amended): an input that starts with \<open>#\<close> never makes the normalisation raise.
  When the at most eight characters after the \<open>#\<close> number other than 3, 6 or 8, or are
  not a run of hex digits up to the end (one final newline apart, which \<open>$\<close> admits), the
  result is the empty string, returned normally.
\<close>

theorem color_code_to_rgba_hash_never_raises:
  "\<not> isl (color_code_to_rgba fg (CHR ''#'' # rest))
   \<and> (length (take 8 rest) \<notin> {3, 6, 8} \<or> \<not> match_hex_plus_end (take 8 rest)
        \<longrightarrow> color_code_to_rgba fg (CHR ''#'' # rest) = Inr [])"
proof (cases "length (take 8 rest) \<in> {3, 6, 8} \<and> match_hex_plus_end (take 8 rest)")
  case True
  then obtain c r where cr: "take 8 rest = c # r" "is_hex c"
    using match_hd_hex by blast
  have "\<not> isl (add_alpha_to_rgb (CHR ''#'' # take 8 rest))"
    using add_alpha_total[OF _ cr] True by blast
  then show ?thesis
    using True by (simp only: color_code_to_rgba_def simple_decorator_def body_hash if_True sum.case simp_thms)
next
  case False
  then have "color_code_to_rgba fg (CHR ''#'' # rest) = Inr []"
    by (simp only: color_code_to_rgba_def simple_decorator_def body_hash if_False sum.case add_alpha_empty)
  then show ?thesis by simp
qed

text \<open>
  The claim as first stated (such an input signals an error) fails at the specification's
  own example \<open>#12345\<close>: the result is the empty string, a normal return.
\<close>

theorem color_code_to_rgba_five_digits_no_error: "color_code_to_rgba None ''#12345'' = Inr [] \<and> \<not> isl (color_code_to_rgba None ''#12345'')"
  by (simp add: color_code_to_rgba_def simple_decorator_def color_code_to_rgba_body_def slice_def add_alpha_to_rgb_def lstrip_def)

theorem color_code_to_rgba_hash_never_raises_witness: "\<not> match_hex_plus_end (take 8 ''ggg'') \<and> color_code_to_rgba None ''#ggg'' = Inr []
   \<and> length (take 8 ''1234567'') \<notin> {3, 6, 8::nat} \<and> color_code_to_rgba None ''#1234567'' = Inr []"
  using color_code_to_rgba_hash_never_raises [of None "''ggg''"]
    color_code_to_rgba_hash_never_raises [of None "''1234567''"]
  by (simp add: match_hex_plus_end_def is_hex_def)

text \<open>
  C6: for the symbolic input \<open>@scope_inverted\<close>, when the theme lookup gives \<open>#RRGGBB\<close>
  or \<open>#RRGGBBAA\<close>, the result is the lowercase eight-digit colour whose red, green and
  blue bytes are the bitwise complements of the looked-up ones and whose alpha byte is the
  looked-up one (\<open>ff\<close> when there was none).
\<close>

theorem scope_inverted_complement:
  "list_all is_hex ds \<and> (length ds = 6 \<or> length ds = 8) \<longrightarrow>
     color_code_to_rgba (Some (CHR ''#'' # ds)) ''@scope_inverted'' =
       Inr (CHR ''#'' # hex2 (complement8 (byte_at ds 0)) @ hex2 (complement8 (byte_at ds 1))
              @ hex2 (complement8 (byte_at ds 2)) @ hex2 (if length ds = 8 then byte_at ds 3 else 0xFF))"
proof (intro impI)
  assume a: "list_all is_hex ds \<and> (length ds = 6 \<or> length ds = 8)"
  then have h: "list_all is_hex ds" by simp
  from a consider "length ds = 6" | "length ds = 8" by blast
  then show "color_code_to_rgba (Some (CHR ''#'' # ds)) ''@scope_inverted'' =
       Inr (CHR ''#'' # hex2 (complement8 (byte_at ds 0)) @ hex2 (complement8 (byte_at ds 1))
              @ hex2 (complement8 (byte_at ds 2)) @ hex2 (if length ds = 8 then byte_at ds 3 else 0xFF))"
  proof cases
    case 1
    then obtain c0 c1 c2 c3 c4 c5 where ds: "ds = [c0, c1, c2, c3, c4, c5]" using len6 by blast
    have hx: "list_all is_hex [c0, c1, c2, c3, c4, c5, CHR ''f'', CHR ''f'']" using h ds by simp
    have sl: "slice 1 9 ((CHR ''#'' # ds) @ ''ff'') = [c0, c1, c2, c3, c4, c5, CHR ''f'', CHR ''f'']"
      by (simp add: ds slice_def)
    have ff: "hex2 255 = ''ff''" by (simp add: hex2_def hex_char_def)
    show ?thesis
      unfolding scope_inverted_8[OF hx sl]
      by (simp add: ds byte_at_def complement8_byte hex_val_lt ff hex_char_def)
  next
    case 2
    then obtain c0 c1 c2 c3 c4 c5 c6 c7 where ds: "ds = [c0, c1, c2, c3, c4, c5, c6, c7]"
      using len8 by blast
    have hx: "list_all is_hex [c0, c1, c2, c3, c4, c5, c6, c7]" using h ds by simp
    have sl: "slice 1 9 ((CHR ''#'' # ds) @ ''ff'') = [c0, c1, c2, c3, c4, c5, c6, c7]"
      by (simp add: ds slice_def)
    show ?thesis
      unfolding scope_inverted_8[OF hx sl]
      by (simp add: ds byte_at_def complement8_byte hex2_byte hex_val_lt)
  qed
qed

theorem scope_inverted_complement_witness:
  "list_all is_hex ''102030'' \<and> (length ''102030'' = 6 \<or> length ''102030'' = 8)
   \<and> color_code_to_rgba (Some ''#102030'') ''@scope_inverted'' = Inr ''#efdfcfff''
   \<and> list_all is_hex ''1020304F'' \<and> (length ''1020304F'' = 6 \<or> length ''1020304F'' = 8)
   \<and> color_code_to_rgba (Some ''#1020304F'') ''@scope_inverted'' = Inr ''#efdfcf4f''"
  using scope_inverted_complement [of "''102030''"] scope_inverted_complement [of "''1020304F''"]
  by (simp add: is_hex_def hex2_def complement8_def byte_at_def hex_val_def hex_char_def)

section \<open>Properties of the recolouring\<close>

subsection \<open>Sequencing, grouping and rendering\<close>

lemma collect_append:
  "collect (xs @ ys) = rbind (collect xs) (\<lambda>a. rbind (collect ys) (\<lambda>b. Inr (a @ b)))"
  by (induction xs) (auto simp: rbind_def split: sum.splits)

lemma not_4_dvd [simp]:
  "\<not> 4 dvd Suc 0" "\<not> 4 dvd Suc (Suc 0)" "\<not> 4 dvd Suc (Suc (Suc 0))"
  by presburger+

lemma grouper4_gray:
  "4 dvd length row \<Longrightarrow> collect (map calculate_gray (grouper4 row)) = Inr (map gray (pixels row))"
proof (induction row rule: pixels.induct)
  case (1 r g b a rest)
  then have "4 dvd length rest" by simp presburger
  with 1 show ?case
    by (simp add: rbind_def gray_def drop_bit_eq_div)
qed simp_all


lemma grouper4_concat_gray:
  "list_all (\<lambda>row. 4 dvd length row) rows \<Longrightarrow>
   collect (map calculate_gray (concat (map grouper4 rows))) = Inr (map gray (concat (map pixels rows)))"
  by (induction rows) (simp_all add: collect_append grouper4_gray rbind_def)

lemma render_pixel_recolored:
  "render_pixel [Some r, Some g, Some b, Some a] [tR, tG, tB, tA] dark
   = Inr (recolored (tR, tG, tB, tA) dark (r, g, b, a))"
  by (simp add: render_pixel_def rbind_def item_def number_def recolored_def gray_def drop_bit_eq_div Let_def)

lemma grouper4_render:
  "4 dvd length row \<Longrightarrow>
   collect (map (\<lambda>s. render_pixel s [tR, tG, tB, tA] dark) (grouper4 row))
   = Inr (map (recolored (tR, tG, tB, tA) dark) (pixels row))"
proof (induction row rule: pixels.induct)
  case (1 r g b a rest)
  then have "4 dvd length rest" by simp presburger
  with 1 show ?case
    by (simp add: rbind_def render_pixel_recolored)
qed simp_all

lemma rows_render:
  "list_all (\<lambda>row. 4 dvd length row) rows \<Longrightarrow>
   collect (map (\<lambda>row_src.
       rbind (collect (map (\<lambda>s. render_pixel s [tR, tG, tB, tA] dark) (grouper4 row_src)))
         (\<lambda>px. Inr (concat px))) rows)
   = Inr (map (\<lambda>row. concat (map (recolored (tR, tG, tB, tA) dark) (pixels row))) rows)"
  by (induction rows) (simp_all add: grouper4_render rbind_def)

lemma int16_2: "is_hex a \<Longrightarrow> is_hex b \<Longrightarrow> int16 [a, b] = Inr (16 * int (hex_val a) + int (hex_val b))"
  by (simp add: int16_def)

lemma parse_dst:
  "list_all is_hex [c0, c1, c2, c3, c4, c5, c6, c7] \<Longrightarrow>
   collect (map (\<lambda>i. int16 (slice i (i + 2) (CHR ''#'' # [c0, c1, c2, c3, c4, c5, c6, c7]))) [1, 3, 5, 7])
   = Inr [byte_at [c0, c1, c2, c3, c4, c5, c6, c7] 0, byte_at [c0, c1, c2, c3, c4, c5, c6, c7] 1,
          byte_at [c0, c1, c2, c3, c4, c5, c6, c7] 2, byte_at [c0, c1, c2, c3, c4, c5, c6, c7] 3]"
  by (simp add: slice_def int16_2 rbind_def byte_at_def)

lemma match_rgba_code_8:
  "list_all is_hex ds \<Longrightarrow> length ds = 8 \<Longrightarrow> match_rgba_code (CHR ''#'' # ds)"
  by (simp add: match_rgba_code_def)

lemma is_img_light_classified:
  assumes "asRGBA lib img_bytes = Inr (w, h, rows)" "list_all (\<lambda>row. 4 dvd length row) rows"
  shows "is_img_light lib img_bytes = Inr (classified_light w h rows)"
  using assms
  by (simp add: is_img_light_def rbind_def grouper4_concat_gray classified_light_def drop_bit_eq_div)

lemma rbind_Inr [simp]: "rbind (Inr v) f = f v"
  by (simp add: rbind_def)

lemma rbind_Inl [simp]: "rbind (Inl e) f = Inl e"
  by (simp add: rbind_def)

lemma parse_dst_ds:
  assumes "list_all is_hex ds" "length ds = 8"
  shows "collect (map (\<lambda>i. int16 (slice i (i + 2) (CHR ''#'' # ds))) [1, 3, 5, 7])
         = Inr [byte_at ds 0, byte_at ds 1, byte_at ds 2, byte_at ds 3]"
proof -
  obtain c0 c1 c2 c3 c4 c5 c6 c7 where ds: "ds = [c0, c1, c2, c3, c4, c5, c6, c7]"
    using len8[OF assms(2)] by blast
  have hx: "list_all is_hex [c0, c1, c2, c3, c4, c5, c6, c7]" using assms(1) ds by simp
  show ?thesis unfolding ds by (rule parse_dst[OF hx])
qed

lemma change_png_bytes_color_unfold:
  assumes "asRGBA lib img_bytes = Inr (w, h, rows)" "list_all (\<lambda>row. 4 dvd length row) rows"
    and "list_all is_hex ds" "length ds = 8"
  shows "change_png_bytes_color lib img_bytes (CHR ''#'' # ds) =
           write_array lib (map (\<lambda>row. concat (map (recolored (target_of (CHR ''#'' # ds))
                               (\<not> classified_light w h rows)) (pixels row))) rows)"
proof -
  have m: "match_rgba_code (CHR ''#'' # ds)" by (rule match_rgba_code_8[OF assms(3,4)])
  have t: "target_of (CHR ''#'' # ds) = (byte_at ds 0, byte_at ds 1, byte_at ds 2, byte_at ds 3)"
    by (simp add: target_of_def)
  show ?thesis
    unfolding change_png_bytes_color_def t
    by (simp only: m is_img_light_classified[OF assms(1,2)] parse_dst_ds[OF assms(3,4)] assms(1))
       (simp add: rows_render[OF assms(2)])
qed

lemma white_pixel:
  assumes "asRGBA lib img_bytes = Inr (1, 1, [[255, 255, 255, 255]])"
  shows "is_img_light lib img_bytes = Inr False"
  using assms by (simp add: is_img_light_def rbind_def drop_bit_eq_div)

subsection \<open>The claims on the recolouring\<close>

text \<open>
  C1: for a template that decodes to RGBA rows (each a whole number of pixels) and a target
  colour \<open>#\<close> plus eight hex digits, the recoloured image holds, for each source pixel
  \<open>(R, G, B, A)\<close>, the pixel \<open>((tR*g)>>8, (tG*g)>>8, (tB*g)>>8, (tA*A)>>8)\<close> with
  \<open>g = (R*38 + G*75 + B*15) >> 7\<close>, replaced by \<open>255 - g\<close> for every pixel exactly when
  the template is not light; and the template is light iff the sum of \<open>g\<close> over all pixels,
  shifted right by 7, is strictly greater than width times height.
\<close>

theorem change_png_bytes_color_pixels:
  assumes "asRGBA lib img_bytes = Inr (w, h, rows)" "list_all (\<lambda>row. 4 dvd length row) rows"
    and "list_all is_hex ds" "length ds = 8"
  shows "change_png_bytes_color lib img_bytes (CHR ''#'' # ds) =
           write_array lib (map (\<lambda>row. concat (map (recolored (target_of (CHR ''#'' # ds))
                               (\<not> classified_light w h rows)) (pixels row))) rows)
         \<and> is_img_light lib img_bytes = Inr (classified_light w h rows)"
  using change_png_bytes_color_unfold[OF assms] is_img_light_classified[OF assms(1,2)] by simp

theorem change_png_bytes_color_pixels_witness:
  "asRGBA white_2x1 [] = Inr (2, 1, [[255, 255, 255, 255, 255, 255, 255, 255]])
   \<and> list_all (\<lambda>row. 4 dvd length row) [[255, 255, 255, 255, 255, 255, 255, 255 :: int]]
   \<and> list_all is_hex ''ff000080'' \<and> length ''ff000080'' = 8
   \<and> classified_light 2 1 [[255, 255, 255, 255, 255, 255, 255, 255]]
   \<and> is_img_light white_2x1 [] = Inr True
   \<and> change_png_bytes_color white_2x1 [] ''#ff000080'' = Inr [254, 0, 0, 127, 254, 0, 0, 127]"
proof -
  have d: "list_all (\<lambda>row. 4 dvd length row) [[255, 255, 255, 255, 255, 255, 255, 255 :: int]]"
    by simp presburger
  have r: "asRGBA white_2x1 [] = Inr (2, 1, [[255, 255, 255, 255, 255, 255, 255, 255]])"
    by (simp add: white_2x1_def)
  have h: "list_all is_hex ''ff000080''" "length ''ff000080'' = 8"
    by (simp_all add: is_hex_def)
  have c: "classified_light 2 1 [[255, 255, 255, 255, 255, 255, 255, 255]]"
    by (simp add: classified_light_def gray_def)
  show ?thesis
    using change_png_bytes_color_pixels [OF r d h] d r h c
    by (simp add: white_2x1_def recolored_def gray_def target_of_def byte_at_def hex_val_def)
qed

text \<open>
  C10: one opaque white pixel has gray value 255, the gray sum shifted right by 7 is 1, and
  \<open>1 > 1\<close> is false: the 1x1 white template is not light, and its pixel is rendered with
  the inverted gray weight \<open>255 - g\<close>.
\<close>

theorem white_pixel_not_light:
  "calculate_gray [Some 255, Some 255, Some 255, Some 255] = Inr 255
   \<and> drop_bit 7 (sum_list [255 :: int]) = 1
   \<and> (asRGBA lib img_bytes = Inr (1, 1, [[255, 255, 255, 255]]) \<and> list_all is_hex ds \<and> length ds = 8 \<longrightarrow>
        is_img_light lib img_bytes = Inr False
        \<and> change_png_bytes_color lib img_bytes (CHR ''#'' # ds) =
            rbind (render_pixel [Some 255, Some 255, Some 255, Some 255]
                     [byte_at ds 0, byte_at ds 1, byte_at ds 2, byte_at ds 3] True)
              (\<lambda>p. write_array lib [p])
        \<and> render_pixel [Some 255, Some 255, Some 255, Some 255]
              [byte_at ds 0, byte_at ds 1, byte_at ds 2, byte_at ds 3] True
            = Inr [drop_bit 8 (byte_at ds 0 * (255 - 255)), drop_bit 8 (byte_at ds 1 * (255 - 255)),
                   drop_bit 8 (byte_at ds 2 * (255 - 255)), drop_bit 8 (byte_at ds 3 * 255)])"
proof (intro conjI impI)
  show "calculate_gray [Some 255, Some 255, Some 255, Some 255] = Inr 255"
    by (simp add: drop_bit_eq_div)
  show "drop_bit 7 (sum_list [255 :: int]) = 1"
    by (simp add: drop_bit_eq_div)
next
  assume a: "asRGBA lib img_bytes = Inr (1, 1, [[255, 255, 255, 255]]) \<and> list_all is_hex ds \<and> length ds = 8"
  then show "is_img_light lib img_bytes = Inr False" by (simp add: white_pixel)
  have m: "match_rgba_code (CHR ''#'' # ds)" using a by (simp add: match_rgba_code_8)
  have p: "collect (map (\<lambda>i. int16 (slice i (i + 2) (CHR ''#'' # ds))) [1, 3, 5, 7])
         = Inr [byte_at ds 0, byte_at ds 1, byte_at ds 2, byte_at ds 3]"
    using a by (simp only: parse_dst_ds)
  have r: "asRGBA lib img_bytes = Inr (1, 1, [[255, 255, 255, 255]])" using a by simp
  show "change_png_bytes_color lib img_bytes (CHR ''#'' # ds) =
            rbind (render_pixel [Some 255, Some 255, Some 255, Some 255]
                     [byte_at ds 0, byte_at ds 1, byte_at ds 2, byte_at ds 3] True)
              (\<lambda>p. write_array lib [p])"
    unfolding change_png_bytes_color_def
    by (simp only: m p r white_pixel[OF r]) (simp add: render_pixel_recolored)
  show "render_pixel [Some 255, Some 255, Some 255, Some 255]
              [byte_at ds 0, byte_at ds 1, byte_at ds 2, byte_at ds 3] True
            = Inr [drop_bit 8 (byte_at ds 0 * (255 - 255)), drop_bit 8 (byte_at ds 1 * (255 - 255)),
                   drop_bit 8 (byte_at ds 2 * (255 - 255)), drop_bit 8 (byte_at ds 3 * 255)]"
    by (simp add: render_pixel_def rbind_def item_def number_def drop_bit_eq_div)
qed

theorem white_pixel_not_light_witness:
  "asRGBA white_1x1 [] = Inr (1, 1, [[255, 255, 255, 255]]) \<and> list_all is_hex ''ff000080''
   \<and> length ''ff000080'' = 8
   \<and> is_img_light white_1x1 [] = Inr False
   \<and> change_png_bytes_color white_1x1 [] ''#ff000080'' = Inr [0, 0, 0, 127]"
  using white_pixel_not_light [of white_1x1 "[]" "''ff000080''"]
  by (simp add: white_1x1_def is_hex_def byte_at_def hex_val_def rbind_def drop_bit_eq_div)

section \<open>Properties of the memoisation\<close>

subsection \<open>What a hit and a miss keep\<close>

lemma takeWhile_filter:
  "(\<And>x. \<not> P x \<Longrightarrow> Q x) \<Longrightarrow> takeWhile P (filter Q xs) = filter Q (takeWhile P xs)"
  by (induction xs) auto

lemma map_fst_filter: "map fst (filter (\<lambda>e. fst e \<noteq> j) c) = filter (\<lambda>x. x \<noteq> j) (map fst c)"
  by (induction c) auto

lemma map_of_filter_other: "k \<noteq> j \<Longrightarrow> map_of (filter (\<lambda>e. fst e \<noteq> j) c) k = map_of c k"
  by (induction c) auto

lemma lru_hit_retained:
  assumes "retained k v T c" "map_of c j = Some w" "j \<in> insert k T"
  shows "retained k v T (lru_hit j w c)"
proof (cases "j = k")
  case True
  with assms show ?thesis
    by (auto simp: retained_def lru_hit_def map_fst_filter distinct_map_filter)
next
  case False
  then have tw: "takeWhile (\<lambda>x. x \<noteq> k) (filter (\<lambda>x. x \<noteq> j) (map fst c))
      = filter (\<lambda>x. x \<noteq> j) (takeWhile (\<lambda>x. x \<noteq> k) (map fst c))"
    by (intro takeWhile_filter) auto
  from False assms show ?thesis
    by (auto simp: retained_def lru_hit_def map_fst_filter map_of_filter_other tw)
qed

lemma map_of_take:
  "length (takeWhile (\<lambda>x. x \<noteq> k) (map fst c)) < n \<Longrightarrow> map_of (take n c) k = map_of c k"
proof (induction c arbitrary: n)
  case Nil
  then show ?case by simp
next
  case (Cons e c)
  then show ?case by (cases n) (auto split: if_splits)
qed

lemma takeWhile_take:
  "length (takeWhile P xs) < n \<Longrightarrow> takeWhile P (take n xs) = takeWhile P xs"
proof (induction xs arbitrary: n)
  case Nil
  then show ?case by simp
next
  case (Cons x xs)
  then show ?case by (cases n) (auto split: if_splits)
qed

lemma lru_miss_retained:
  assumes "retained k v T c" "map_of c j = None" "j \<in> T" "finite T" "card T < lru_maxsize"
  shows "retained k v T (lru_miss j w c)"
proof -
  let ?tw = "takeWhile (\<lambda>x. x \<noteq> k) (map fst c)"
  have jk: "j \<noteq> k" using assms(1,2) by (auto simp: retained_def)
  have jn: "j \<notin> set (map fst c)" using assms(2) by (simp add: map_of_eq_None_iff)
  then have "j \<notin> set ?tw" by (meson set_takeWhileD)
  moreover have "distinct ?tw" using assms(1) by (simp add: retained_def distinct_takeWhile)
  ultimately have "length ?tw + 1 = card (insert j (set ?tw))"
    by (simp add: distinct_card)
  also have "\<dots> \<le> card T"
    using assms(1,3,4) by (intro card_mono) (auto simp: retained_def)
  finally have len: "length (takeWhile (\<lambda>x. x \<noteq> k) (map fst ((j, w) # c))) < lru_maxsize"
    using assms(5) jk by simp
  have d: "distinct (map fst (take lru_maxsize ((j, w) # c)))"
    using assms(1) jn by (simp add: retained_def take_map [symmetric] distinct_take del: take_Suc_Cons)
  have m: "map_of (take lru_maxsize ((j, w) # c)) k = Some v"
    using map_of_take[OF len] assms(1) jk by (simp add: retained_def)
  have "takeWhile (\<lambda>x. x \<noteq> k) (map fst (take lru_maxsize ((j, w) # c)))
        = takeWhile (\<lambda>x. x \<noteq> k) (map fst ((j, w) # c))"
    unfolding take_map [symmetric] using len by (rule takeWhile_take)
  then have t: "set (takeWhile (\<lambda>x. x \<noteq> k) (map fst (take lru_maxsize ((j, w) # c)))) \<subseteq> T"
    using assms(1,3) jk by (auto simp: retained_def)
  show ?thesis
    unfolding retained_def lru_miss_def using d m t by blast
qed

lemma lru_maxsize_pos: "0 < lru_maxsize"
  by (simp add: lru_maxsize_def)

lemma lru_cache_retained:
  assumes "retained k v T c" "j \<in> insert k T" "finite T" "card T < lru_maxsize"
  shows "retained k v T (snd (lru_cache f j c))"
proof (cases "map_of c j")
  case None
  then have "j \<noteq> k" using assms(1) by (auto simp: retained_def)
  then have "j \<in> T" using assms(2) by simp
  from lru_miss_retained[OF assms(1) None this assms(3,4)] None assms(1)
  show ?thesis by (simp add: lru_cache_def split: sum.splits)
next
  case (Some w)
  from lru_hit_retained[OF assms(1) Some assms(2)] Some
  show ?thesis by (simp add: lru_cache_def)
qed

lemma lru_hit_distinct: "distinct (map fst c) \<Longrightarrow> distinct (map fst (lru_hit j w c))"
  by (simp add: lru_hit_def map_fst_filter)

lemma lru_miss_distinct:
  "distinct (map fst c) \<Longrightarrow> map_of c j = None \<Longrightarrow> distinct (map fst (lru_miss j w c))"
  by (simp add: lru_miss_def take_map [symmetric] map_of_eq_None_iff del: take_Suc_Cons)

lemma lru_hit_length: "map_of c j = Some w \<Longrightarrow> length (lru_hit j w c) \<le> length c"
proof -
  assume "map_of c j = Some w"
  then have "(j, w) \<in> set c" by (rule map_of_SomeD)
  then have "length (filter (\<lambda>e. fst e \<noteq> j) c) < length c"
    by (intro length_filter_less[of "(j, w)"]) auto
  then show ?thesis by (simp add: lru_hit_def)
qed

lemma lru_miss_length: "length (lru_miss j w c) \<le> lru_maxsize"
  by (simp add: lru_miss_def)

lemma lru_cache_distinct:
  "distinct (map fst c) \<Longrightarrow> distinct (map fst (snd (lru_cache f j c)))"
  by (auto simp: lru_cache_def lru_hit_distinct lru_miss_distinct split: option.splits sum.splits)

lemma lru_cache_length:
  "length c \<le> lru_maxsize \<Longrightarrow> length (snd (lru_cache f j c)) \<le> lru_maxsize"
  using lru_hit_length[of c j] lru_miss_length[of j _ c]
  by (auto simp: lru_cache_def split: option.splits sum.splits intro: order_trans)

lemma lru_hit_established: "distinct (map fst c) \<Longrightarrow> retained k v T (lru_hit k v c)"
  by (simp add: retained_def lru_hit_def map_fst_filter)

lemma lru_miss_established:
  "distinct (map fst c) \<Longrightarrow> map_of c k = None \<Longrightarrow> retained k v T (lru_miss k v c)"
proof -
  assume a: "distinct (map fst c)" "map_of c k = None"
  obtain n where n: "lru_maxsize = Suc n" using lru_maxsize_pos by (cases lru_maxsize) auto
  have t: "take lru_maxsize ((k, v) # c) = (k, v) # take n c" by (simp add: n)
  have "distinct (map fst (lru_miss k v c))" by (rule lru_miss_distinct[OF a])
  then show ?thesis
    by (simp add: retained_def lru_miss_def t)
qed

lemma lru_cache_established:
  assumes "distinct (map fst c)" "lru_cache f k c = (Inr v, c1)"
  shows "retained k v T c1"
  using assms lru_hit_established[OF assms(1)] lru_miss_established[OF assms(1)]
  by (auto simp: lru_cache_def split: option.splits sum.splits)

lemma png_lookups_distinct:
  "distinct (map fst c) \<Longrightarrow> distinct (map fst (png_lookups lib ks c))"
  by (induction ks arbitrary: c) (simp_all add: change_png_bytes_color_cached_def lru_cache_distinct)

lemma png_lookups_length:
  "length c \<le> lru_maxsize \<Longrightarrow> length (png_lookups lib ks c) \<le> lru_maxsize"
  by (induction ks arbitrary: c) (simp_all add: change_png_bytes_color_cached_def lru_cache_length)

lemma png_lookups_retained:
  "retained k v T c \<Longrightarrow> set ks \<subseteq> insert k T \<Longrightarrow> finite T \<Longrightarrow> card T < lru_maxsize \<Longrightarrow>
   retained k v T (png_lookups lib ks c)"
proof (induction ks arbitrary: c)
  case Nil
  then show ?case by simp
next
  case (Cons j ks)
  have "retained k v T (snd (change_png_bytes_color_cached lib (fst j) (snd j) c))"
    unfolding change_png_bytes_color_cached_def
    using Cons.prems by (intro lru_cache_retained) auto
  with Cons show ?case by simp
qed

lemma b64_step_cases:
  "fst (snd (get_colored_image_base64_by_color env lib name code (bc, pc))) = bc
   \<or> (\<exists>w. map_of bc (name, code) = Some w
          \<and> fst (snd (get_colored_image_base64_by_color env lib name code (bc, pc))) = lru_hit (name, code) w bc)
   \<or> (\<exists>w. map_of bc (name, code) = None
          \<and> fst (snd (get_colored_image_base64_by_color env lib name code (bc, pc))) = lru_miss (name, code) w bc)"
  by (auto simp: get_colored_image_base64_by_color_def split: option.splits sum.splits prod.splits)

lemma b64_step_retained:
  assumes "retained k v T bc" "(name, code) \<in> insert k T" "finite T" "card T < lru_maxsize"
  shows "retained k v T (fst (snd (get_colored_image_base64_by_color env lib name code (bc, pc))))"
proof -
  from b64_step_cases[of env lib name code bc pc]
  consider "fst (snd (get_colored_image_base64_by_color env lib name code (bc, pc))) = bc"
    | w where "map_of bc (name, code) = Some w"
        "fst (snd (get_colored_image_base64_by_color env lib name code (bc, pc))) = lru_hit (name, code) w bc"
    | w where "map_of bc (name, code) = None"
        "fst (snd (get_colored_image_base64_by_color env lib name code (bc, pc))) = lru_miss (name, code) w bc"
    by blast
  then show ?thesis
  proof cases
    case 1
    then show ?thesis using assms(1) by simp
  next
    case 2
    then show ?thesis using lru_hit_retained[OF assms(1) 2(1) assms(2)] by simp
  next
    case 3
    then have "(name, code) \<noteq> k" using assms(1) by (auto simp: retained_def)
    then have "(name, code) \<in> T" using assms(2) by simp
    from lru_miss_retained[OF assms(1) 3(1) this assms(3,4)] 3(2) show ?thesis by simp
  qed
qed

lemma b64_step_distinct:
  "distinct (map fst bc) \<Longrightarrow>
   distinct (map fst (fst (snd (get_colored_image_base64_by_color env lib name code (bc, pc)))))"
  using b64_step_cases[of env lib name code bc pc]
  by (auto simp: lru_hit_distinct lru_miss_distinct)

lemma b64_step_length:
  "length bc \<le> lru_maxsize \<Longrightarrow>
   length (fst (snd (get_colored_image_base64_by_color env lib name code (bc, pc)))) \<le> lru_maxsize"
  using b64_step_cases[of env lib name code bc pc] lru_hit_length[of bc "(name, code)"]
  by (auto simp: lru_miss_length intro: order_trans)

lemma b64_step_established:
  assumes "distinct (map fst bc)"
    and "get_colored_image_base64_by_color env lib name code (bc, pc) = (Inr v, st1)"
  shows "retained (name, code) v T (fst st1)"
  using assms lru_hit_established[OF assms(1)] lru_miss_established[OF assms(1)]
  by (auto simp: get_colored_image_base64_by_color_def split: option.splits sum.splits prod.splits if_splits)

lemma base64_lookups_distinct:
  "distinct (map fst (fst st)) \<Longrightarrow> distinct (map fst (fst (base64_lookups env lib ks st)))"
proof (induction ks arbitrary: st)
  case Nil
  then show ?case by simp
next
  case (Cons j ks)
  obtain bc pc where st: "st = (bc, pc)" by (cases st)
  show ?case using Cons.prems by (simp add: st Cons.IH b64_step_distinct)
qed

lemma base64_lookups_length:
  "length (fst st) \<le> lru_maxsize \<Longrightarrow> length (fst (base64_lookups env lib ks st)) \<le> lru_maxsize"
proof (induction ks arbitrary: st)
  case Nil
  then show ?case by simp
next
  case (Cons j ks)
  obtain bc pc where st: "st = (bc, pc)" by (cases st)
  show ?case using Cons.prems by (simp add: st Cons.IH b64_step_length)
qed

lemma base64_lookups_retained:
  "retained k v T (fst st) \<Longrightarrow> set ks \<subseteq> insert k T \<Longrightarrow> finite T \<Longrightarrow> card T < lru_maxsize \<Longrightarrow>
   retained k v T (fst (base64_lookups env lib ks st))"
proof (induction ks arbitrary: st)
  case Nil
  then show ?case by simp
next
  case (Cons j ks)
  obtain bc pc where st: "st = (bc, pc)" by (cases st)
  have "retained k v T (fst (snd (get_colored_image_base64_by_color env lib (fst j) (snd j) (bc, pc))))"
    using Cons.prems by (intro b64_step_retained) (auto simp: st)
  with Cons show ?case by (simp add: st)
qed

subsection \<open>A run of lookups of new keys\<close>

lemma take_append_take: "take n (xs @ take n ys) = take n (xs @ ys)"
  by (simp add: take_append min_def) 

lemma lru_cache_fresh:
  assumes "k \<notin> fst ` set c" "f k = Inr v"
  shows "map fst (snd (lru_cache f k c)) = take lru_maxsize (k # map fst c)"
proof -
  have "map_of c k = None" using assms(1) by (simp add: map_of_eq_None_iff)
  moreover have "k # map fst c = map fst ((k, v) # c)" by simp
  ultimately show ?thesis
    using assms(2) by (simp only: lru_cache_def lru_miss_def take_map option.case sum.case snd_conv)
qed

lemma png_lookups_fresh:
  "distinct ks \<Longrightarrow> set ks \<inter> fst ` set c = {} \<Longrightarrow> length c \<le> lru_maxsize \<Longrightarrow>
   (\<And>k. k \<in> set ks \<Longrightarrow> \<exists>v. change_png_bytes_color lib (fst k) (snd k) = Inr v) \<Longrightarrow>
   map fst (png_lookups lib ks c) = take lru_maxsize (rev ks @ map fst c)"
proof (induction ks arbitrary: c)
  case Nil
  then show ?case by simp
next
  case (Cons k ks)
  let ?c = "snd (change_png_bytes_color_cached lib (fst k) (snd k) c)"
  obtain v where v: "change_png_bytes_color lib (fst k) (snd k) = Inr v" using Cons.prems(4)[of k] by auto
  have k: "k \<notin> fst ` set c" using Cons.prems(2) by auto
  have keys: "map fst ?c = take lru_maxsize (k # map fst c)"
    unfolding change_png_bytes_color_cached_def prod.collapse
    by (rule lru_cache_fresh[OF k]) (simp add: v)
  have "set (map fst ?c) \<subseteq> insert k (fst ` set c)"
    unfolding keys using set_take_subset[of lru_maxsize "k # map fst c"] by auto
  then have disj: "set ks \<inter> fst ` set ?c = {}"
    using Cons.prems(1,2) by auto
  have len: "length ?c \<le> lru_maxsize"
    unfolding change_png_bytes_color_cached_def by (rule lru_cache_length[OF Cons.prems(3)])
  have "map fst (png_lookups lib ks ?c) = take lru_maxsize (rev ks @ map fst ?c)"
    using Cons.prems(1,4) by (intro Cons.IH[OF _ disj len]) auto
  also have "\<dots> = take lru_maxsize (rev ks @ k # map fst c)"
    unfolding keys by (rule take_append_take)
  finally show ?case by simp
qed

lemma format_08x_byte:
  assumes "n < 256"
  shows "format_08x (int n) = ''000000'' @ [hex_char (n div 16), hex_char (n mod 16)]"
proof -
  have z: "(0::nat) < 16" by simp
  have d: "n div 16 < 16" using assms by simp
  have m: "n mod 16 < 16" by simp
  have "16 * (16 * (16 * (16 * (16 * (16 * (16 * 0 + 0) + 0) + 0) + 0) + 0) + n div 16) + n mod 16 = n"
    by simp
  with format_horner[OF z z z z z z d m] show ?thesis
    by (simp add: format_08x_def hex_char_def del: mult_div_mod_eq div_mult_mod_eq)
qed

lemma hex_val_hex_char: "d < 16 \<Longrightarrow> hex_val (hex_char d) = d"
  by (drule lt16_cases) (elim disjE; simp add: hex_char_def hex_val_def)

lemma other_color_shape:
  assumes "col \<in> set other_colors"
  shows "\<exists>n. 1 \<le> n \<and> n < 129 \<and> col = CHR ''#'' # ''000000'' @ [hex_char (n div 16), hex_char (n mod 16)]"
proof -
  from assms obtain n where n: "1 \<le> n" "n < 129" "col = CHR ''#'' # format_08x (int n)"
    by (auto simp: other_colors_def)
  then have "n < 256" by simp
  from format_08x_byte[OF this] n show ?thesis by auto
qed

lemma other_colors_length: "length other_colors = 128"
  by (simp add: other_colors_def)

lemma other_colors_distinct: "distinct other_colors"
proof -
  have "inj_on (\<lambda>n. CHR ''#'' # format_08x (int n)) (set [1..<129])"
  proof (rule inj_onI)
    fix x y assume x: "x \<in> set [1..<129]" and y: "y \<in> set [1..<129]"
      and e: "CHR ''#'' # format_08x (int x) = CHR ''#'' # format_08x (int y)"
    have xl: "x < 256" and yl: "y < 256" using x y by auto
    from e have "hex_char (x div 16) = hex_char (y div 16)" "hex_char (x mod 16) = hex_char (y mod 16)"
      by (simp_all add: format_08x_byte[OF xl] format_08x_byte[OF yl])
    then have "hex_val (hex_char (x div 16)) = hex_val (hex_char (y div 16))"
      "hex_val (hex_char (x mod 16)) = hex_val (hex_char (y mod 16))" by simp_all
    then have q: "x div 16 = y div 16" and r: "x mod 16 = y mod 16"
      using xl yl by (simp_all add: hex_val_hex_char)
    have "x = 16 * (x div 16) + x mod 16" by simp
    also have "\<dots> = 16 * (y div 16) + y mod 16" by (simp only: q r)
    also have "\<dots> = y" by simp
    finally show "x = y" .
  qed
  then show ?thesis by (simp add: other_colors_def distinct_map)
qed

lemma zero_not_other: "''#00000000'' \<notin> set other_colors"
proof
  assume "''#00000000'' \<in> set other_colors"
  from other_color_shape[OF this] obtain n where n: "1 \<le> n" "n < 129"
    "hex_char (n div 16) = CHR ''0''" "hex_char (n mod 16) = CHR ''0''" by auto
  then have "hex_val (hex_char (n div 16)) = 0" "hex_val (hex_char (n mod 16)) = 0"
    by (simp_all add: hex_val_def)
  then have q: "n div 16 = 0" and r: "n mod 16 = 0" using n(2) by (simp_all add: hex_val_hex_char)
  have "n = 16 * (n div 16) + n mod 16" by simp
  then have "n = 0" by (simp only: q r)
  with n(1) show False by simp
qed

lemma white_any_color:
  assumes "col \<in> set other_colors"
  shows "\<exists>v. change_png_bytes_color white_1x1 [] col = Inr v"
proof -
  from other_color_shape[OF assms] obtain n where n: "n < 129"
    "col = CHR ''#'' # ''000000'' @ [hex_char (n div 16), hex_char (n mod 16)]" by auto
  have r: "asRGBA white_1x1 [] = Inr (1, 1, [[255, 255, 255, 255]])" by (simp add: white_1x1_def)
  have d: "list_all (\<lambda>row. 4 dvd length row) [[255, 255, 255, 255 :: int]]" by simp presburger
  have z: "is_hex CHR ''0''" by (simp add: is_hex_def)
  have "n div 16 < 16" "n mod 16 < 16" using n(1) by simp_all
  then have h: "list_all is_hex (''000000'' @ [hex_char (n div 16), hex_char (n mod 16)])"
    using z by (simp add: hex_char_hex)
  have l: "length (''000000'' @ [hex_char (n div 16), hex_char (n mod 16)]) = 8" by simp
  show ?thesis
    unfolding n(2) change_png_bytes_color_unfold[OF r d h l]
    by (simp add: white_1x1_def)
qed

lemmas cache_ev = change_png_bytes_color_cached_def lru_cache_def lru_hit_def lru_miss_def lru_maxsize_def
  change_png_bytes_color_def is_img_light_def render_pixel_def rbind_def item_def number_def
  match_rgba_code_def int16_def slice_def is_hex_def hex_val_def white_1x1_def drop_bit_eq_div
  get_colored_image_base64_by_color_def sample_images_def

subsection \<open>The claim on the cache\<close>

text \<open>
  C8 (as amended): each of the two memoised functions keeps at most 128 entries, the least
  recently used one being dropped when a new one comes in. Once an entry has been computed
  (or found), it is still in the cache after every sequence of lookups in which fewer than
  128 distinct other keys occur.
\<close>

theorem lru_cache_keeps_recent_entries:
  "(change_png_bytes_color_cached lib b code (png_lookups lib hist []) = (Inr out, c1)
      \<and> card (set ks - {(b, code)}) < 128
    \<longrightarrow> map_of (png_lookups lib ks c1) (b, code) = Some out)
   \<and> (get_colored_image_base64_by_color env lib name code (base64_lookups env lib hist2 ([], [])) = (Inr v, st1)
      \<and> card (set ks2 - {(name, code)}) < 128
    \<longrightarrow> map_of (fst (base64_lookups env lib ks2 st1)) (name, code) = Some v)
   \<and> length (png_lookups lib hist []) \<le> 128
   \<and> length (fst (base64_lookups env lib hist2 ([], []))) \<le> 128"
proof (intro conjI impI)
  assume a: "change_png_bytes_color_cached lib b code (png_lookups lib hist []) = (Inr out, c1)
      \<and> card (set ks - {(b, code)}) < 128"
  have d: "distinct (map fst (png_lookups lib hist []))" by (simp add: png_lookups_distinct)
  from a have "lru_cache (\<lambda>k. change_png_bytes_color lib (fst k) (snd k)) (b, code)
      (png_lookups lib hist []) = (Inr out, c1)"
    by (simp add: change_png_bytes_color_cached_def)
  then have "retained (b, code) out (set ks - {(b, code)}) c1"
    by (rule lru_cache_established[OF d])
  then have "retained (b, code) out (set ks - {(b, code)}) (png_lookups lib ks c1)"
    using a by (intro png_lookups_retained) (auto simp: lru_maxsize_def)
  then show "map_of (png_lookups lib ks c1) (b, code) = Some out" by (simp add: retained_def)
next
  assume a: "get_colored_image_base64_by_color env lib name code (base64_lookups env lib hist2 ([], [])) = (Inr v, st1)
      \<and> card (set ks2 - {(name, code)}) < 128"
  obtain bc pc where st: "base64_lookups env lib hist2 ([], []) = (bc, pc)"
    by (cases "base64_lookups env lib hist2 ([], [])")
  have d: "distinct (map fst bc)" using base64_lookups_distinct[of "([], [])" env lib hist2] by (simp add: st)
  from a have "get_colored_image_base64_by_color env lib name code (bc, pc) = (Inr v, st1)"
    by (simp add: st)
  then have "retained (name, code) v (set ks2 - {(name, code)}) (fst st1)"
    by (rule b64_step_established[OF d])
  then have "retained (name, code) v (set ks2 - {(name, code)}) (fst (base64_lookups env lib ks2 st1))"
    using a by (intro base64_lookups_retained) (auto simp: lru_maxsize_def)
  then show "map_of (fst (base64_lookups env lib ks2 st1)) (name, code) = Some v"
    by (simp add: retained_def)
next
  show "length (png_lookups lib hist []) \<le> 128"
    using png_lookups_length[of "[]" lib hist] by (simp add: lru_maxsize_def)
  show "length (fst (base64_lookups env lib hist2 ([], []))) \<le> 128"
    using base64_lookups_length[of "([], [])" env lib hist2] by (simp add: lru_maxsize_def)
qed

theorem lru_cache_keeps_recent_entries_witness:
  "change_png_bytes_color_cached white_1x1 [] ''#00000000'' (png_lookups white_1x1 [] [])
     = (Inr [0, 0, 0, 0], [(([], ''#00000000''), [0, 0, 0, 0])])
   \<and> card (set [([] :: bytes, ''#ff000080'')] - {([], ''#00000000'')}) < 128
   \<and> map_of (png_lookups white_1x1 [([], ''#ff000080'')] [(([], ''#00000000''), [0, 0, 0, 0])])
         ([], ''#00000000'') = Some [0, 0, 0, 0]
   \<and> get_colored_image_base64_by_color sample_images white_1x1 ''open'' ''#00000000''
         (base64_lookups sample_images white_1x1 [] ([], []))
       = (Inr ''AAAA'', ([((''open'', ''#00000000''), ''AAAA'')], [(([], ''#00000000''), [0, 0, 0, 0])]))
   \<and> card (set [(''open'', ''#ff000080'')] - {(''open'', ''#00000000'')}) < 128
   \<and> map_of (fst (base64_lookups sample_images white_1x1 [(''open'', ''#ff000080'')]
         ([((''open'', ''#00000000''), ''AAAA'')], [(([], ''#00000000''), [0, 0, 0, 0])])))
         (''open'', ''#00000000'') = Some ''AAAA''"
proof -
  have a: "change_png_bytes_color_cached white_1x1 [] ''#00000000'' (png_lookups white_1x1 [] [])
     = (Inr [0, 0, 0, 0], [(([], ''#00000000''), [0, 0, 0, 0])])"
    by (simp add: cache_ev)
  have b: "card (set [([] :: bytes, ''#ff000080'')] - {([], ''#00000000'')}) < 128" by simp
  have c: "get_colored_image_base64_by_color sample_images white_1x1 ''open'' ''#00000000''
         (base64_lookups sample_images white_1x1 [] ([], []))
       = (Inr ''AAAA'', ([((''open'', ''#00000000''), ''AAAA'')], [(([], ''#00000000''), [0, 0, 0, 0])]))"
    by (simp add: cache_ev)
  have d: "card (set [(''open'', ''#ff000080'')] - {(''open'', ''#00000000'')}) < 128" by simp
  note t = lru_cache_keeps_recent_entries [where lib = white_1x1 and b = "[]" and code = "''#00000000''"
      and hist = "[]" and out = "[0, 0, 0, 0]" and ?c1.0 = "[(([], ''#00000000''), [0, 0, 0, 0])]"
      and ks = "[([], ''#ff000080'')]" and env = sample_images and name = "''open''" and ?hist2.0 = "[]"
      and v = "''AAAA''"
      and ?st1.0 = "([((''open'', ''#00000000''), ''AAAA'')], [(([], ''#00000000''), [0, 0, 0, 0])])"
      and ?ks2.0 = "[(''open'', ''#ff000080'')]"]
  from t a b have e: "map_of (png_lookups white_1x1 [([], ''#ff000080'')] [(([], ''#00000000''), [0, 0, 0, 0])])
         ([], ''#00000000'') = Some [0, 0, 0, 0]" by blast
  from t c d have f: "map_of (fst (base64_lookups sample_images white_1x1 [(''open'', ''#ff000080'')]
         ([((''open'', ''#00000000''), ''AAAA'')], [(([], ''#00000000''), [0, 0, 0, 0])])))
         (''open'', ''#00000000'') = Some ''AAAA''" by blast
  show ?thesis by (intro conjI) (rule a b c d e f)+
qed

text \<open>
  The claim as first stated (no sequence of distinct lookups ever evicts an entry) fails:
  after the entry of the colour \<open>#00000000\<close> has been computed, the lookups of the 128
  colours \<open>#00000001\<close> to \<open>#00000080\<close> for the same template leave a cache without it.
\<close>

theorem lru_cache_evicts_after_128:
  "change_png_bytes_color_cached white_1x1 [] ''#00000000'' []
     = (Inr [0, 0, 0, 0], [(([], ''#00000000''), [0, 0, 0, 0])])
   \<and> length other_colors = 128 \<and> distinct other_colors \<and> ''#00000000'' \<notin> set other_colors
   \<and> map_of (png_lookups white_1x1 (map (Pair []) other_colors) [(([], ''#00000000''), [0, 0, 0, 0])])
        ([], ''#00000000'') = None"
proof -
  let ?ks = "map (Pair ([] :: bytes)) other_colors"
  let ?c = "[((([] :: bytes), ''#00000000''), [0, 0, 0, 0 :: 8 word])]"
  have first: "change_png_bytes_color_cached white_1x1 [] ''#00000000'' [] = (Inr [0, 0, 0, 0], ?c)"
    by (simp add: change_png_bytes_color_cached_def lru_cache_def lru_miss_def lru_maxsize_def
        change_png_bytes_color_def is_img_light_def render_pixel_def rbind_def item_def number_def
        match_rgba_code_def int16_def slice_def is_hex_def hex_val_def white_1x1_def drop_bit_eq_div)
  have dk: "distinct ?ks" using other_colors_distinct by (simp add: distinct_map inj_on_def)
  have disj: "set ?ks \<inter> fst ` set ?c = {}" using zero_not_other by auto
  have ok: "\<And>k. k \<in> set ?ks \<Longrightarrow> \<exists>v. change_png_bytes_color white_1x1 (fst k) (snd k) = Inr v"
    using white_any_color by auto
  have "map fst (png_lookups white_1x1 ?ks ?c) = take lru_maxsize (rev ?ks @ map fst ?c)"
    by (rule png_lookups_fresh[OF dk disj _ ok]) (simp_all add: lru_maxsize_def)
  also have "\<dots> = rev ?ks" by (simp add: lru_maxsize_def other_colors_length)
  finally have keys: "map fst (png_lookups white_1x1 ?ks ?c) = rev ?ks" .
  have "set (map fst (png_lookups white_1x1 ?ks ?c)) = set ?ks"
    by (simp only: keys set_rev)
  then have "fst ` set (png_lookups white_1x1 ?ks ?c) = Pair [] ` set other_colors"
    by (simp only: set_map)
  then have "([], ''#00000000'') \<notin> fst ` set (png_lookups white_1x1 ?ks ?c)"
    using zero_not_other by (simp only: image_iff) auto
  then have "map_of (png_lookups white_1x1 ?ks ?c) ([], ''#00000000'') = None"
    by (simp add: map_of_eq_None_iff)
  with first other_colors_length other_colors_distinct zero_not_other show ?thesis by blast
qed

section \<open>Properties of the scheduler\<close>

subsection \<open>The loop and the steps of one view\<close>

lemma for_views_append:
  "for_views body (xs @ ys) h =
     (case for_views body xs h of (h', Some e) \<Rightarrow> (h', Some e) | (h', None) \<Rightarrow> for_views body ys h')"
  by (induction xs arbitrary: h) (auto split: prod.splits option.splits)

lemma tick_in_progress:
  "is_rendering self \<Longrightarrow> update_foreground_views s (self, h) = ((self, h), None)"
  by (simp add: update_foreground_views_def)

lemma tick_raises:
  assumes "update_foreground_views s (self, h) = ((self', h'), Some e)"
  shows "is_rendering self'"
  using assms
  by (auto simp: update_foreground_views_def Let_def split: if_splits prod.splits option.splits)

lemma update_view_skip:
  "\<not> eligible s (store h v) \<Longrightarrow> update_view s v h = (h, None)"
  by (auto simp: update_view_def eligible_def Let_def)

lemma update_view_large:
  assumes "eligible s (store h v)" "too_large (store h v)"
  shows "update_view s v h =
     (h\<lparr>store := (store h)(v := (store h v)\<lparr>phantoms := [],
            regions := (regions (store h v))(''OUIB_uri_regions'' := None), dirty := False\<rparr>),
        calls := calls h @ [ErasePhantoms v, Log ''debug_low'' ''erase phantoms'',
                            EraseRegions v, Log ''debug_low'' ''erase URI regions'']\<rparr>, None)"
  using assms
  by (auto simp: update_view_def eligible_def Let_def view_is_dirty_val_set_def clean_up_uri_regions_def
      clean_up_phantom_set_def erase_uri_regions_def erase_phantom_set_def log_def on_view_def)

lemma update_view_scan_fails:
  assumes "eligible s (store h v)" "\<not> too_large (store h v)" "find_all (store h v) = Inl e"
  shows "update_view s v h = (h\<lparr>calls := calls h @ [FindAll v]\<rparr>, Some e)"
  using assms
  by (auto simp: update_view_def eligible_def Let_def detect_uris_globally_def)

lemma update_view_other:
  assumes "u \<noteq> v" "update_view s u h = (h', r)"
  shows "store h' v = store h v \<and> (\<exists>cs. calls h' = calls h @ cs \<and> (\<forall>c \<in> set cs. \<not> about_view v c))"
  using assms
  by (auto simp: update_view_def Let_def view_is_dirty_val_set_def clean_up_uri_regions_def
      clean_up_phantom_set_def erase_uri_regions_def erase_phantom_set_def log_def on_view_def
      detect_uris_globally_def update_phantom_set_def draw_uri_regions_def about_view_def
      split: if_splits sum.splits)

lemma ticks_in_progress:
  "is_rendering self \<Longrightarrow> ticks s n (self, h) = (self, h)"
  by (induction n) (simp_all add: tick_in_progress)

lemmas rend_ev = update_foreground_views_def foreground_views_def update_view_def Let_def
  detect_uris_globally_def view_is_dirty_val_set_def clean_up_uri_regions_def clean_up_phantom_set_def
  erase_uri_regions_def erase_phantom_set_def update_phantom_set_def draw_uri_regions_def log_def
  on_view_def parse_draw_region_flags_def
  sample_view_def sample_settings_def failing_view_def large_view_def sample_store_def failing_host_def
  healthy_host_def idle_def

lemma failing_tick:
  "update_foreground_views sample_settings (idle, failing_host) =
     ((\<lparr>is_rendering = True\<rparr>, failing_host\<lparr>calls := [FindAll 0]\<rparr>), Some (OtherError ''scan failed''))"
  by (simp add: rend_ev)

subsection \<open>A view over the size threshold, through a whole tick\<close>

lemma update_view_not_dirty: "\<not> dirty (store h v) \<Longrightarrow> update_view s v h = (h, None)"
  by (simp add: update_view_skip eligible_def)

lemma for_views_cleaned:
  "cleaned (store h v) \<Longrightarrow> for_views (update_view s) vs h = (h', r) \<Longrightarrow>
   cleaned (store h' v) \<and> (\<exists>cs. calls h' = calls h @ cs \<and> FindAll v \<notin> set cs)"
proof (induction vs arbitrary: h)
  case Nil
  then show ?case by simp
next
  case (Cons u vs)
  obtain h1 r1 where u: "update_view s u h = (h1, r1)" by (cases "update_view s u h")
  have step: "cleaned (store h1 v) \<and> (\<exists>cs. calls h1 = calls h @ cs \<and> FindAll v \<notin> set cs)"
  proof (cases "u = v")
    case True
    then have "update_view s u h = (h, None)"
      using Cons.prems(1) by (simp add: update_view_not_dirty cleaned_def)
    with u Cons.prems(1) show ?thesis by simp
  next
    case False
    from update_view_other[OF False u] Cons.prems(1) show ?thesis
      by (auto simp: about_view_def)
  qed
  show ?case
  proof (cases r1)
    case None
    with Cons.prems(2) u have "for_views (update_view s) vs h1 = (h', r)" by simp
    from Cons.IH[OF _ this] step show ?thesis by auto
  next
    case (Some e)
    with Cons.prems(2) u have "h' = h1" by simp
    with step show ?thesis by simp
  qed
qed

lemma for_views_large:
  "eligible s (store h v) \<Longrightarrow> too_large (store h v) \<Longrightarrow> v \<in> set vs \<Longrightarrow>
   for_views (update_view s) vs h = (h', None) \<Longrightarrow>
   cleaned (store h' v) \<and> (\<exists>cs. calls h' = calls h @ cs \<and> FindAll v \<notin> set cs)"
proof (induction vs arbitrary: h)
  case Nil
  then show ?case by simp
next
  case (Cons u vs)
  show ?case
  proof (cases "u = v")
    case True
    let ?h1 = "h\<lparr>store := (store h)(v := (store h v)\<lparr>phantoms := [],
            regions := (regions (store h v))(''OUIB_uri_regions'' := None), dirty := False\<rparr>),
        calls := calls h @ [ErasePhantoms v, Log ''debug_low'' ''erase phantoms'',
                            EraseRegions v, Log ''debug_low'' ''erase URI regions'']\<rparr>"
    have u: "update_view s u h = (?h1, None)"
      unfolding True by (rule update_view_large[OF Cons.prems(1,2)])
    then have rest: "for_views (update_view s) vs ?h1 = (h', None)" using Cons.prems(4) by simp
    have "cleaned (store ?h1 v)" by (simp add: cleaned_def)
    from for_views_cleaned[OF this rest] show ?thesis by auto
  next
    case False
    obtain h1 r1 where u: "update_view s u h = (h1, r1)" by (cases "update_view s u h")
    with Cons.prems(4) have r1: "r1 = None" and rest: "for_views (update_view s) vs h1 = (h', None)"
      by (auto split: option.splits)
    from update_view_other[OF False u]
    have st: "store h1 v = store h v"
      and cs: "\<exists>cs. calls h1 = calls h @ cs \<and> (\<forall>c \<in> set cs. \<not> about_view v c)" by auto
    have "v \<in> set vs" using Cons.prems(3) False by simp
    from Cons.IH[OF _ _ this rest] Cons.prems(1,2) st
    have "cleaned (store h' v) \<and> (\<exists>cs. calls h' = calls h1 @ cs \<and> FindAll v \<notin> set cs)" by simp
    with cs show ?thesis by (auto simp: about_view_def)
  qed
qed

subsection \<open>The claims on the scheduler\<close>

text \<open>
  C2 (as amended): a scan failure while a foreground view is processed is not caught. The
  exception leaves the tick at that view: the views enumerated before it have been
  processed, the failing view keeps its dirty flag, no view's state is changed by the
  failing step, and the views enumerated after it are not processed in that tick.
\<close>

theorem scan_failure_leaves_tick:
  assumes "\<not> is_rendering self" "foreground_views h = pre @ v # post"
    and "for_views (update_view s) pre h = (h1, None)"
    and "eligible s (store h1 v)" "\<not> too_large (store h1 v)" "find_all (store h1 v) = Inl e"
  shows "update_foreground_views s (self, h) =
           ((self\<lparr>is_rendering := True\<rparr>, h1\<lparr>calls := calls h1 @ [FindAll v]\<rparr>), Some e)
         \<and> dirty (store (h1\<lparr>calls := calls h1 @ [FindAll v]\<rparr>) v)
         \<and> store (h1\<lparr>calls := calls h1 @ [FindAll v]\<rparr>) = store h1"
proof -
  have "for_views (update_view s) (pre @ v # post) h = (h1\<lparr>calls := calls h1 @ [FindAll v]\<rparr>, Some e)"
    by (simp add: for_views_append assms(3) update_view_scan_fails[OF assms(4-6)])
  then show ?thesis
    using assms(1,2,4) by (simp add: update_foreground_views_def eligible_def)
qed

theorem scan_failure_leaves_tick_witness:
  "\<not> is_rendering idle
   \<and> foreground_views (failing_host\<lparr>windows := [[Some 2], [Some 0, Some 1]]\<rparr>) = [2] @ 0 # [1]
   \<and> snd (for_views (update_view sample_settings) [2] (failing_host\<lparr>windows := [[Some 2], [Some 0, Some 1]]\<rparr>)) = None
   \<and> snd (update_foreground_views sample_settings (idle, failing_host\<lparr>windows := [[Some 2], [Some 0, Some 1]]\<rparr>))
       = Some (OtherError ''scan failed'')
   \<and> is_rendering (fst (fst (update_foreground_views sample_settings
         (idle, failing_host\<lparr>windows := [[Some 2], [Some 0, Some 1]]\<rparr>))))
   \<and> store (snd (fst (update_foreground_views sample_settings
         (idle, failing_host\<lparr>windows := [[Some 2], [Some 0, Some 1]]\<rparr>)))) 1 = large_view
   \<and> dirty (store (snd (fst (update_foreground_views sample_settings
         (idle, failing_host\<lparr>windows := [[Some 2], [Some 0, Some 1]]\<rparr>)))) 0)
   \<and> \<not> dirty (store (snd (fst (update_foreground_views sample_settings
         (idle, failing_host\<lparr>windows := [[Some 2], [Some 0, Some 1]]\<rparr>)))) 2)"
proof -
  define h where "h = failing_host\<lparr>windows := [[Some 2], [Some 0, Some 1]]\<rparr>"
  define h1 where "h1 = fst (for_views (update_view sample_settings) [2] h)"
  have a: "\<not> is_rendering idle" by (simp add: idle_def)
  have b: "foreground_views h = [2] @ 0 # [1]" by (simp add: h_def foreground_views_def)
  have st: "store h1 = sample_store(2 := sample_view\<lparr>phantoms := [(0, 18)],
      regions := [''OUIB_uri_regions'' \<mapsto> \<lparr>drawn_regions = [(0, 18)], drawn_scope = ''string'',
         drawn_icon = ''dot'', drawn_flags = 0\<rparr>], dirty := False\<rparr>)"
    by (simp add: h1_def h_def rend_ev)
  have c: "for_views (update_view sample_settings) [2] h = (h1, None)"
    by (simp add: h1_def h_def rend_ev)
  have d: "eligible sample_settings (store h1 0)" "\<not> too_large (store h1 0)"
    "find_all (store h1 0) = Inl (OtherError ''scan failed'')"
    by (simp_all add: st eligible_def sample_store_def failing_view_def sample_view_def sample_settings_def)
  have l: "store h1 1 = large_view" by (simp add: st sample_store_def)
  have n: "\<not> dirty (store h1 2)" by (simp add: st)
  show ?thesis
    using scan_failure_leaves_tick [OF a b c d] a b c l n unfolding h_def [symmetric]
    by simp
qed

text \<open>
  The claim as first stated (the remaining views are still processed in that tick, and the
  failing view is scanned again on the next tick) fails: with the views 0, 1 and 2 in the
  foreground and the scan of view 0 raising, the only call of the tick is the scan of view
  0, view 2 is left dirty and untouched, and the next tick returns at once.
\<close>

theorem scan_failure_stops_later_views:
  "snd (update_foreground_views sample_settings (idle, failing_host)) = Some (OtherError ''scan failed'')
   \<and> store (snd (fst (update_foreground_views sample_settings (idle, failing_host)))) 2 = sample_view
   \<and> dirty sample_view
   \<and> calls (snd (fst (update_foreground_views sample_settings (idle, failing_host)))) = [FindAll 0]
   \<and> update_foreground_views sample_settings
        (fst (update_foreground_views sample_settings (idle, failing_host)))
       = (fst (update_foreground_views sample_settings (idle, failing_host)), None)"
  by (simp add: failing_tick tick_in_progress) (simp add: rend_ev)

text \<open>
  C4: a tick that fires while the scan pass of an earlier tick is in progress, that is at
  any point after that tick has set the flag and processed some of the foreground views,
  returns at once and changes nothing; the earlier tick then goes on from the same state.
\<close>

theorem overlapping_tick_is_noop:
  assumes "\<not> is_rendering self" "foreground_views h = pre @ post"
    and "for_views (update_view s) pre h = (h1, None)"
  shows "update_foreground_views s2 (self\<lparr>is_rendering := True\<rparr>, h1)
           = ((self\<lparr>is_rendering := True\<rparr>, h1), None)
         \<and> update_foreground_views s (self, h) =
             (case for_views (update_view s) post h1 of
                (h2, Some e) \<Rightarrow> ((self\<lparr>is_rendering := True\<rparr>, h2), Some e)
              | (h2, None) \<Rightarrow> ((self\<lparr>is_rendering := False\<rparr>, h2), None))"
proof
  show "update_foreground_views s2 (self\<lparr>is_rendering := True\<rparr>, h1)
           = ((self\<lparr>is_rendering := True\<rparr>, h1), None)"
    by (simp add: tick_in_progress)
  show "update_foreground_views s (self, h) =
             (case for_views (update_view s) post h1 of
                (h2, Some e) \<Rightarrow> ((self\<lparr>is_rendering := True\<rparr>, h2), Some e)
              | (h2, None) \<Rightarrow> ((self\<lparr>is_rendering := False\<rparr>, h2), None))"
    using assms
    by (auto simp: update_foreground_views_def for_views_append split: prod.splits option.splits)
qed

theorem overlapping_tick_is_noop_witness:
  "\<not> is_rendering idle \<and> foreground_views healthy_host = [2] @ [1]
   \<and> snd (for_views (update_view sample_settings) [2] healthy_host) = None
   \<and> update_foreground_views sample_settings
        (idle\<lparr>is_rendering := True\<rparr>, fst (for_views (update_view sample_settings) [2] healthy_host))
       = ((idle\<lparr>is_rendering := True\<rparr>, fst (for_views (update_view sample_settings) [2] healthy_host)), None)"
proof -
  define h1 where "h1 = fst (for_views (update_view sample_settings) [2] healthy_host)"
  have a: "\<not> is_rendering idle" by (simp add: idle_def)
  have b: "foreground_views healthy_host = [2] @ [1]" by (simp add: healthy_host_def foreground_views_def)
  have n: "snd (for_views (update_view sample_settings) [2] healthy_host) = None"
    by (simp add: rend_ev)
  have c: "for_views (update_view sample_settings) [2] healthy_host = (h1, None)"
    unfolding h1_def using n by (metis prod.collapse)
  note t = overlapping_tick_is_noop [OF a b c, of sample_settings, THEN conjunct1, unfolded h1_def]
  show ?thesis
    by (intro conjI) (rule a b n t)+
qed

text \<open>
  C7: a view that passes the gates (processable, dirty, not being typed in, transient policy)
  and is over the size threshold has its icon layer and its region layer erased and its
  dirty flag cleared, and is not scanned: by the step of the tick for that view, and so in
  the state after every tick that starts with no pass in progress and in which no view's
  processing raises.
\<close>

theorem oversized_view_is_cleared:
  "(eligible s (store h v) \<and> too_large (store h v) \<longrightarrow>
      update_view s v h =
        (h\<lparr>store := (store h)(v := (store h v)\<lparr>phantoms := [],
              regions := (regions (store h v))(''OUIB_uri_regions'' := None), dirty := False\<rparr>),
           calls := calls h @ [ErasePhantoms v, Log ''debug_low'' ''erase phantoms'',
                               EraseRegions v, Log ''debug_low'' ''erase URI regions'']\<rparr>, None))
   \<and> (eligible s (store h v) \<and> too_large (store h v) \<and> v \<in> set (foreground_views h)
        \<and> \<not> is_rendering self \<and> update_foreground_views s (self, h) = ((self', h'), None) \<longrightarrow>
        phantoms (store h' v) = [] \<and> regions (store h' v) ''OUIB_uri_regions'' = None
        \<and> \<not> dirty (store h' v) \<and> FindAll v \<notin> set (new_calls h h'))"
proof (intro conjI impI)
  assume "eligible s (store h v) \<and> too_large (store h v)"
  then show "update_view s v h =
        (h\<lparr>store := (store h)(v := (store h v)\<lparr>phantoms := [],
              regions := (regions (store h v))(''OUIB_uri_regions'' := None), dirty := False\<rparr>),
           calls := calls h @ [ErasePhantoms v, Log ''debug_low'' ''erase phantoms'',
                               EraseRegions v, Log ''debug_low'' ''erase URI regions'']\<rparr>, None)"
    by (simp add: update_view_large)
next
  assume a: "eligible s (store h v) \<and> too_large (store h v) \<and> v \<in> set (foreground_views h)
        \<and> \<not> is_rendering self \<and> update_foreground_views s (self, h) = ((self', h'), None)"
  then have "for_views (update_view s) (foreground_views h) h = (h', None)"
    by (auto simp: update_foreground_views_def Let_def split: prod.splits option.splits)
  from for_views_large[OF _ _ _ this] a
  have r: "cleaned (store h' v) \<and> (\<exists>cs. calls h' = calls h @ cs \<and> FindAll v \<notin> set cs)" by blast
  then show "phantoms (store h' v) = []" "regions (store h' v) ''OUIB_uri_regions'' = None"
    "\<not> dirty (store h' v)" by (simp_all add: cleaned_def)
  from r show "FindAll v \<notin> set (new_calls h h')" by (auto simp: new_calls_def)
qed

theorem oversized_view_is_cleared_witness:
  "eligible sample_settings (store healthy_host 1) \<and> too_large (store healthy_host 1)
   \<and> phantoms (store healthy_host 1) = [(0, 18)]
   \<and> 1 \<in> set (foreground_views healthy_host) \<and> \<not> is_rendering idle
   \<and> snd (update_foreground_views sample_settings (idle, healthy_host)) = None
   \<and> phantoms (store (snd (fst (update_foreground_views sample_settings (idle, healthy_host)))) 1) = []
   \<and> regions (store (snd (fst (update_foreground_views sample_settings (idle, healthy_host)))) 1)
        ''OUIB_uri_regions'' = None
   \<and> \<not> dirty (store (snd (fst (update_foreground_views sample_settings (idle, healthy_host)))) 1)
   \<and> FindAll 1 \<notin> set (new_calls healthy_host
        (snd (fst (update_foreground_views sample_settings (idle, healthy_host)))))"
proof -
  define res where "res = update_foreground_views sample_settings (idle, healthy_host)"
  have a: "eligible sample_settings (store healthy_host 1)" "too_large (store healthy_host 1)"
    "phantoms (store healthy_host 1) = [(0, 18)]"
    by (simp_all add: eligible_def healthy_host_def sample_store_def large_view_def sample_view_def
        sample_settings_def)
  have b: "1 \<in> set (foreground_views healthy_host)"
    by (simp add: foreground_views_def healthy_host_def)
  have c: "\<not> is_rendering idle" by (simp add: idle_def)
  have d: "snd res = None" unfolding res_def by (simp add: rend_ev)
  then have e: "update_foreground_views sample_settings (idle, healthy_host)
      = ((fst (fst res), snd (fst res)), None)"
    unfolding res_def by (metis prod.collapse)
  from oversized_view_is_cleared [of sample_settings healthy_host 1 idle "fst (fst res)" "snd (fst res)",
      THEN conjunct2] a b c e
  have "phantoms (store (snd (fst res)) 1) = [] \<and> regions (store (snd (fst res)) 1) ''OUIB_uri_regions'' = None
        \<and> \<not> dirty (store (snd (fst res)) 1) \<and> FindAll 1 \<notin> set (new_calls healthy_host (snd (fst res)))"
    by blast
  with a b c d show ?thesis unfolding res_def by blast
qed

text \<open>
  C9: when the processing of a view raises out of a tick, \<open>is_rendering\<close> is left true,
  and every later tick, with any settings and any state of the host, returns at once
  without processing a view and leaves the flag true.
\<close>

theorem uncaught_exception_disables_scheduler:
  assumes "update_foreground_views s (self, h) = ((self', h'), Some e)"
  shows "is_rendering self'
         \<and> (\<forall>s2 h2. update_foreground_views s2 (self', h2) = ((self', h2), None))
         \<and> (\<forall>s2 h2 n. ticks s2 n (self', h2) = (self', h2))"
  using tick_raises[OF assms] by (simp add: tick_in_progress ticks_in_progress)

theorem uncaught_exception_disables_scheduler_witness:
  "update_foreground_views sample_settings (idle, failing_host) =
     ((\<lparr>is_rendering = True\<rparr>, failing_host\<lparr>calls := [FindAll 0]\<rparr>), Some (OtherError ''scan failed''))
   \<and> update_foreground_views sample_settings (\<lparr>is_rendering = True\<rparr>, healthy_host)
       = ((\<lparr>is_rendering = True\<rparr>, healthy_host), None)
   \<and> ticks sample_settings 3 (\<lparr>is_rendering = True\<rparr>, healthy_host) = (\<lparr>is_rendering = True\<rparr>, healthy_host)"
  using uncaught_exception_disables_scheduler [OF failing_tick] failing_tick by simp

end
